theory Spec2Isabelle
  imports Main "HOL-Library.AList" "HOL-Library.Sublist"
begin

section \<open>Strings\<close>

text \<open>
  A JavaScript string is a sequence of code units. The model uses \<^typ>\<open>string\<close>, so it
  covers the code units below 256 (ASCII and Latin-1), and \<open>length\<close> is the source's
  \<^verbatim>\<open>.length\<close>. The regular-expression class \<^verbatim>\<open>\s\<close> and \<^verbatim>\<open>trim()\<close> agree on what
  whitespace is; below 256 it is tab, line feed, vertical tab, form feed, carriage return,
  space and the no-break space.
\<close>

definition isWhitespace :: "char \<Rightarrow> bool" where
  "isWhitespace c \<longleftrightarrow>
     c \<in> set [CHR 0x09, CHR 0x0A, CHR 0x0B, CHR 0x0C, CHR 0x0D, CHR 0x20, CHR 0xA0]"

text \<open>\<^verbatim>\<open>s.trim()\<close>\<close>

definition trim :: "string \<Rightarrow> string" where
  "trim s = rev (dropWhile isWhitespace (rev (dropWhile isWhitespace s)))"

text \<open>\<^verbatim>\<open>s.replace(/\s+/g, ' ')\<close>: every maximal run of whitespace becomes one space.\<close>

function collapseWhitespace :: "string \<Rightarrow> string" where
  "collapseWhitespace [] = []"
| "collapseWhitespace (c # cs) =
     (if isWhitespace c then CHR 0x20 # collapseWhitespace (dropWhile isWhitespace cs)
      else c # collapseWhitespace cs)"
  by pat_completeness auto
termination
  by (relation "measure length") (auto simp: less_Suc_eq_le length_dropWhile_le)

text \<open>\<^verbatim>\<open>s.lastIndexOf(c)\<close>: the largest index holding \<open>c\<close>, or -1.\<close>

fun lastIndexOf :: "string \<Rightarrow> char \<Rightarrow> int" where
  "lastIndexOf [] c = -1"
| "lastIndexOf (x # xs) c =
     (let r = lastIndexOf xs c in
      if r \<ge> 0 then r + 1 else if x = c then 0 else -1)"

text \<open>\<^verbatim>\<open>s.substring(0, n)\<close> for an integer \<open>n\<close>; a negative \<open>n\<close> counts as 0.\<close>

definition substring0 :: "string \<Rightarrow> int \<Rightarrow> string" where
  "substring0 s n = take (nat n) s"

section \<open>Body previews\<close>

text \<open>
  \<^verbatim>\<open>truncateBody(body, maxLength = 300)\<close>. The comparison
  \<^verbatim>\<open>lastSpace > maxLength * 0.8\<close> is between an integer and four fifths of an integer;
  it is written \<open>5 * lastSpace > 4 * maxLength\<close>.
\<close>

definition truncateBody :: "string \<Rightarrow> nat \<Rightarrow> string" where
  "truncateBody body maxLength =
     (if body = [] then []
      else
        let cleaned = trim (collapseWhitespace body) in
        if length cleaned \<le> maxLength then cleaned
        else
          let truncated = substring0 cleaned (int maxLength);
              lastSpace = lastIndexOf truncated (CHR 0x20)
          in if 5 * lastSpace > 4 * int maxLength
             then substring0 truncated lastSpace @ ''...''
             else truncated @ ''...'')"

text \<open>No two adjacent spaces: the shape of a normalised body.\<close>

fun noDoubleSpace :: "string \<Rightarrow> bool" where
  "noDoubleSpace (a # b # cs) = (\<not> (a = CHR 0x20 \<and> b = CHR 0x20) \<and> noDoubleSpace (b # cs))"
| "noDoubleSpace _ = True"

section \<open>Messages and contacts\<close>

text \<open>
  The interfaces \<^verbatim>\<open>EmailAttachment\<close>, \<^verbatim>\<open>EmailMessage\<close> and \<^verbatim>\<open>Contact\<close> of
  \<^verbatim>\<open>types/index.ts\<close>, with the fields the services read or write. A \<^verbatim>\<open>Date\<close> is its
  time value, the milliseconds since the epoch. The fields \<^verbatim>\<open>id\<close>, \<^verbatim>\<open>from\<close>, \<^verbatim>\<open>to\<close>
  and \<^verbatim>\<open>size\<close> are renamed, since their names are taken.
\<close>

record email_attachment =
  filename :: string
  contentType :: string
  att_size :: int
  content :: "string option"
  contentId :: "string option"

record email_message =
  msg_id :: string
  msg_from :: string
  msg_to :: "string list"
  cc :: "string list"
  subject :: string
  body :: string
  bodyPreview :: string
  isHtml :: bool
  date :: int
  folder :: string
  isRead :: bool
  isStarred :: bool
  hasAttachment :: bool
  attachments :: "email_attachment list option"

record contact =
  email :: string
  emailsSent :: nat
  emailsReceived :: nat
  lastInteraction :: int
  firstInteraction :: int

datatype interaction = Sent | Received

section \<open>Address extraction\<close>

text \<open>
  \<^verbatim>\<open>emailString.match(/<([^>]+)>/)\<close>: the leftmost \<open><\<close> that is followed by at least
  one character other than \<open>>\<close> and then by \<open>>\<close>; the group is the run between them.
\<close>

fun matchAngle :: "string \<Rightarrow> string option" where
  "matchAngle [] = None"
| "matchAngle (c # cs) =
     (if c = CHR ''<'' \<and> takeWhile (\<lambda>x. x \<noteq> CHR ''>'') cs \<noteq> []
         \<and> dropWhile (\<lambda>x. x \<noteq> CHR ''>'') cs \<noteq> []
      then Some (takeWhile (\<lambda>x. x \<noteq> CHR ''>'') cs)
      else matchAngle cs)"

definition extractEmailAddress :: "string \<Rightarrow> string" where
  "extractEmailAddress emailString =
     (case matchAngle emailString of Some m \<Rightarrow> m | None \<Rightarrow> trim emailString)"

section \<open>Analytics service\<close>

text \<open>
  A \<^verbatim>\<open>Map\<close> is an association list in insertion order: \<^verbatim>\<open>get\<close> is \<^const>\<open>map_of\<close>,
  and \<^verbatim>\<open>set\<close> is \<^const>\<open>AList.update\<close>, which replaces the value of a key in place and
  appends a new key. A \<^verbatim>\<open>Set\<close> is the list of its elements in insertion order.
\<close>

definition setAdd :: "'a \<Rightarrow> 'a list \<Rightarrow> 'a list" where
  "setAdd x xs = (if x \<in> set xs then xs else xs @ [x])"

definition newSet :: "'a list \<Rightarrow> 'a list" where
  "newSet xs = fold setAdd xs []"

text \<open>
  \<^verbatim>\<open>EmailStats\<close>. The fields \<^verbatim>\<open>averageEmailsPerDay\<close> and \<^verbatim>\<open>storageUsedMB\<close> are
  floating-point values and are not carried; \<open>totalBytes\<close> is the integer that
  \<^verbatim>\<open>storageUsedMB\<close> is computed from.
\<close>

record email_stats =
  totalEmails :: nat
  unreadEmails :: nat
  starredEmails :: nat
  totalFolders :: nat
  totalContacts :: nat
  mostActiveContact :: string
  mostUsedFolder :: string
  totalBytes :: int

text \<open>An entry of a volume trend; the date string is the number of its UTC day (see below).\<close>

record volume_entry =
  trend_date :: int
  received :: nat
  sent :: nat

record analytics_service =
  emails :: "email_message list"
  contacts :: "(string \<times> contact) list"
  statsCache :: "email_stats option"
  analyticsCache :: "volume_entry list option"
  lastCacheUpdate :: "int option"

definition cacheValidityMs :: int where
  "cacheValidityMs = 5 * 60 * 1000"

definition invalidateCache :: "analytics_service \<Rightarrow> analytics_service" where
  "invalidateCache s = s\<lparr>statsCache := None, analyticsCache := None, lastCacheUpdate := None\<rparr>"

definition isCacheValid :: "analytics_service \<Rightarrow> int \<Rightarrow> bool" where
  "isCacheValid s now =
     (case lastCacheUpdate s of None \<Rightarrow> False | Some t \<Rightarrow> now - t < cacheValidityMs)"

definition updateContact ::
  "(string \<times> contact) list \<Rightarrow> string \<Rightarrow> interaction \<Rightarrow> int \<Rightarrow> (string \<times> contact) list" where
  "updateContact cs addr type d =
     (let c0 = (case map_of cs addr of
                  None \<Rightarrow> \<lparr>email = addr, emailsSent = 0, emailsReceived = 0,
                            lastInteraction = d, firstInteraction = d\<rparr>
                | Some c \<Rightarrow> c);
          c1 = (if type = Sent then c0\<lparr>emailsSent := emailsSent c0 + 1\<rparr>
                else c0\<lparr>emailsReceived := emailsReceived c0 + 1\<rparr>);
          c2 = (if d > lastInteraction c1 then c1\<lparr>lastInteraction := d\<rparr> else c1);
          c3 = (if d < firstInteraction c2 then c2\<lparr>firstInteraction := d\<rparr> else c2)
      in AList.update addr c3 cs)"

text \<open>The body of the loop of \<^verbatim>\<open>processContacts\<close> for one message.\<close>

definition processRecipient :: "int \<Rightarrow> string \<Rightarrow> (string \<times> contact) list \<Rightarrow> (string \<times> contact) list" where
  "processRecipient d recipient cs =
     (let toAddress = extractEmailAddress recipient
      in if toAddress \<noteq> [] then updateContact cs toAddress Sent d else cs)"

definition processEmail :: "email_message \<Rightarrow> (string \<times> contact) list \<Rightarrow> (string \<times> contact) list" where
  "processEmail e cs =
     (let fromAddress = extractEmailAddress (msg_from e);
          cs1 = (if fromAddress \<noteq> [] then updateContact cs fromAddress Received (date e) else cs)
      in fold (processRecipient (date e)) (msg_to e) cs1)"

definition processContacts :: "analytics_service \<Rightarrow> analytics_service" where
  "processContacts s = s\<lparr>contacts := fold processEmail (emails s) []\<rparr>"

definition updateEmails :: "analytics_service \<Rightarrow> email_message list \<Rightarrow> analytics_service" where
  "updateEmails s es = processContacts (invalidateCache (s\<lparr>emails := es\<rparr>))"

text \<open>The two selections at the end of \<^verbatim>\<open>getEmailStats\<close>: the first entry with the largest count.\<close>

definition mostActive :: "(string \<times> contact) list \<Rightarrow> string" where
  "mostActive cs =
     fst (fold (\<lambda>(addr, c) (best, maxInteractions).
                  if emailsSent c + emailsReceived c > maxInteractions
                  then (addr, emailsSent c + emailsReceived c) else (best, maxInteractions))
            cs (''N/A'', 0))"

definition countFolders :: "email_message list \<Rightarrow> (string \<times> nat) list" where
  "countFolders es =
     fold (\<lambda>e m. AList.update (folder e) ((case map_of m (folder e) of None \<Rightarrow> 0 | Some n \<Rightarrow> n) + 1) m)
       es []"

definition mostUsed :: "(string \<times> nat) list \<Rightarrow> string" where
  "mostUsed m =
     fst (fold (\<lambda>(f, n) (best, maxFolderCount).
                  if n > maxFolderCount then (f, n) else (best, maxFolderCount))
            m (''INBOX'', 0))"

definition storageBytes :: "email_message list \<Rightarrow> int" where
  "storageBytes es =
     fold (\<lambda>e total.
             fold (\<lambda>att t. t + att_size att)
               (case attachments e of None \<Rightarrow> [] | Some atts \<Rightarrow> atts)
               (total + int (length (body e))))
       es 0"

definition computeStats :: "analytics_service \<Rightarrow> email_stats" where
  "computeStats s =
     \<lparr>totalEmails = length (emails s),
      unreadEmails = length (filter (\<lambda>e. \<not> isRead e) (emails s)),
      starredEmails = length (filter (\<lambda>e. isStarred e) (emails s)),
      totalFolders = length (newSet (map folder (emails s))),
      totalContacts = length (contacts s),
      mostActiveContact = mostActive (contacts s),
      mostUsedFolder = mostUsed (countFolders (emails s)),
      totalBytes = storageBytes (emails s)\<rparr>"

text \<open>\<^verbatim>\<open>getEmailStats()\<close> at the instant \<open>now\<close>: the cached record while it is fresh.\<close>

definition getEmailStats :: "analytics_service \<Rightarrow> int \<Rightarrow> email_stats \<times> analytics_service" where
  "getEmailStats s now =
     (case statsCache s of
        Some cached \<Rightarrow>
          if isCacheValid s now then (cached, s)
          else (computeStats s, s\<lparr>statsCache := Some (computeStats s), lastCacheUpdate := Some now\<rparr>)
      | None \<Rightarrow>
          (computeStats s, s\<lparr>statsCache := Some (computeStats s), lastCacheUpdate := Some now\<rparr>))"

subsection \<open>The contact map, as the specification words it\<close>

text \<open>
  The interactions of a snapshot, in the order the loop meets them: for each message its
  sender (a received interaction) and then each recipient (a sent one), by bare address
  and with the message's date. \<open>foldInteraction\<close> is one step of the loop on such a
  triple. \<open>contactSummary I a\<close> is the contact record the specification describes for
  the address \<open>a\<close>: the numbers of its sent and received interactions and the largest
  and smallest of their dates; there is none for the empty address or an address
  without interaction.
\<close>

definition interactionsOf :: "email_message list \<Rightarrow> (string \<times> interaction \<times> int) list" where
  "interactionsOf S =
     concat (map (\<lambda>m. (extractEmailAddress (msg_from m), Received, date m)
                       # map (\<lambda>t. (extractEmailAddress t, Sent, date m)) (msg_to m)) S)"

definition foldInteraction :: "string \<times> interaction \<times> int \<Rightarrow> (string \<times> contact) list \<Rightarrow> (string \<times> contact) list" where
  "foldInteraction x cs = (case x of (a, k, d) \<Rightarrow> if a \<noteq> [] then updateContact cs a k d else cs)"

definition contactSummary :: "(string \<times> interaction \<times> int) list \<Rightarrow> string \<Rightarrow> contact option" where
  "contactSummary I a =
     (let J = filter (\<lambda>x. fst x = a) I in
      if a = [] \<or> J = [] then None
      else Some \<lparr>email = a,
                 emailsSent = length (filter (\<lambda>x. fst (snd x) = Sent) J),
                 emailsReceived = length (filter (\<lambda>x. fst (snd x) = Received) J),
                 lastInteraction = Max (set (map (\<lambda>x. snd (snd x)) J)),
                 firstInteraction = Min (set (map (\<lambda>x. snd (snd x)) J))\<rparr>)"

section \<open>Volume trends\<close>

text \<open>
  \<^verbatim>\<open>calculateVolumeTrends\<close> steps back through the calendar of the host's time zone
  (\<^verbatim>\<open>getDate\<close>, \<^verbatim>\<open>setDate\<close>) and names each day by its UTC date (\<^verbatim>\<open>toISOString\<close>). A
  time zone is given by its offset from UTC in milliseconds, as a function of the UTC
  instant (\<^verbatim>\<open>LocalTZA(t, true)\<close>) and as a function of the local time
  (\<^verbatim>\<open>LocalTZA(t, false)\<close>).
\<close>

record time_zone =
  utcOffset :: "int \<Rightarrow> int"
  localOffset :: "int \<Rightarrow> int"

definition msPerDay :: int where
  "msPerDay = 86400000"

text \<open>
  The time value of \<^verbatim>\<open>date\<close> after \<^verbatim>\<open>date = new Date(now); date.setDate(date.getDate() - i)\<close>:
  the local time moves back by \<open>i\<close> whole days, its time of day kept, and is read as an
  instant again.
\<close>

definition daysBefore :: "time_zone \<Rightarrow> int \<Rightarrow> nat \<Rightarrow> int" where
  "daysBefore tz now i =
     (let localNow = now + utcOffset tz now;
          newDate = localNow - int i * msPerDay
      in newDate - localOffset tz newDate)"

text \<open>
  \<^verbatim>\<open>d.toISOString().split('T')[0]\<close>, the UTC date of an instant, given by the number of
  its day since the epoch: two instants have the same date string exactly when they have
  the same day number, and \<^verbatim>\<open>localeCompare\<close> orders the date strings of the years 0000
  to 9999 as the day numbers.
\<close>

definition isoDay :: "int \<Rightarrow> int" where
  "isoDay t = t div msPerDay"

definition initTrends :: "time_zone \<Rightarrow> int \<Rightarrow> nat \<Rightarrow> (int \<times> nat \<times> nat) list" where
  "initTrends tz now days =
     fold (\<lambda>i trends. AList.update (isoDay (daysBefore tz now i)) (0, 0) trends) [0..<days] []"

definition countEmail :: "email_message \<Rightarrow> (int \<times> nat \<times> nat) list \<Rightarrow> (int \<times> nat \<times> nat) list" where
  "countEmail e trends =
     (case map_of trends (isoDay (date e)) of
        None \<Rightarrow> trends
      | Some (r, s) \<Rightarrow> AList.update (isoDay (date e)) (r + 1, s) trends)"

definition calculateVolumeTrends ::
  "analytics_service \<Rightarrow> time_zone \<Rightarrow> int \<Rightarrow> nat \<Rightarrow> volume_entry list" where
  "calculateVolumeTrends s tz now days =
     sort_key trend_date
       (map (\<lambda>(d, r, n). \<lparr>trend_date = d, received = r, sent = n\<rparr>)
          (fold countEmail (emails s) (initTrends tz now days)))"

definition getVolumeTrends ::
  "analytics_service \<Rightarrow> time_zone \<Rightarrow> int \<Rightarrow> nat \<Rightarrow> volume_entry list" where
  "getVolumeTrends s tz now days = calculateVolumeTrends s tz now days"

text \<open>
  A zone with a fixed offset, and central Europe around the start of summer time on
  2024-03-31 (01:00 UTC, 02:00 local): one hour ahead of UTC before it, two hours after.
\<close>

definition fixedZone :: "int \<Rightarrow> time_zone" where
  "fixedZone c = \<lparr>utcOffset = (\<lambda>t. c), localOffset = (\<lambda>t. c)\<rparr>"

definition centralEurope2024 :: time_zone where
  "centralEurope2024 =
     \<lparr>utcOffset = (\<lambda>t. if t < 19813 * 86400000 + 3600000 then 3600000 else 7200000),
      localOffset = (\<lambda>t. if t < 19813 * 86400000 + 3 * 3600000 then 3600000 else 7200000)\<rparr>"

definition emptyAnalytics :: analytics_service where
  "emptyAnalytics =
     \<lparr>emails = [], contacts = [], statsCache = None, analyticsCache = None, lastCacheUpdate = None\<rparr>"

section \<open>The mailbox provider\<close>

text \<open>
  The IMAP client library and the mail parser are outside the repository. The model gives
  the provider as a value: the remote folders with their messages in sequence order, the
  uids a search returns, and for every call the error it throws, if any. Its answers do
  not change during one operation of the service. The service records every call it
  issues in \<open>calls\<close>, a trace that the source does not have.
\<close>

text \<open>What \<^verbatim>\<open>simpleParser\<close> returns (\<^verbatim>\<open>ParsedMail\<close>, \<^verbatim>\<open>Attachment\<close>).\<close>

record parsed_attachment =
  a_filename :: "string option"
  a_contentType :: string
  a_size :: int
  a_content :: string
  a_cid :: "string option"

record parsed_mail =
  p_from :: "string option"
  p_to :: "string option"
  p_cc :: "string option"
  p_subject :: "string option"
  p_text :: "string option"
  p_html :: "string option"
  p_date :: "int option"
  p_attachments :: "parsed_attachment list option"

text \<open>
  The source of a fetched message: absent, one the parser throws on (with the message of
  the error), or one it parses.
\<close>

datatype message_source = NoSource | Unparsable string | Parsable parsed_mail

record remote_message =
  rm_uid :: string
  rm_flags :: "string list"
  rm_source :: message_source

record remote_folder =
  rf_name :: string
  rf_path :: string
  rf_specialUse :: "string option"
  rf_messages :: "remote_message list"

text \<open>The search object that \<^verbatim>\<open>searchEmails\<close> hands to the provider; a date by its string.\<close>

record search_criteria =
  c_from :: "string option"
  c_to :: "string option"
  c_subject :: "string option"
  c_since :: "string option"
  c_before :: "string option"
  c_seen :: bool
  c_unseen :: bool
  c_flagged :: bool

datatype provider_call =
    Connect
  | Logout
  | ListFolders
  | Status string
  | GetMailboxLock string
  | LockRelease string
  | FetchRange int int
  | FetchUid string
  | Search search_criteria
  | MessageFlagsAdd string string
  | MessageFlagsRemove string string
  | MessageMove string string
  | MessageDelete string
  | MailboxCreate string
  | MailboxDelete string
  | MailboxRename string string

text \<open>An error of the provider: its \<^verbatim>\<open>message\<close> and its \<^verbatim>\<open>responseText\<close>.\<close>

record imap_provider =
  remoteFolders :: "remote_folder list"
  searchUids :: "string \<Rightarrow> search_criteria \<Rightarrow> string list option"
  failure :: "provider_call \<Rightarrow> (string \<times> string option) option"

text \<open>The errors the service throws, by the \<^verbatim>\<open>Error\<close> each stands for.\<close>

datatype imap_error =
    NotConnected
  | NoConnectionConfig
  | EmailNotFound string
  | CannotDeleteProtected string
  | CannotRenameProtected string
  | FolderAlreadyExists string
  | FolderDoesNotExist string
  | FolderNotEmpty string
  | ProviderError string "string option"
  | ParseError string
  | TypeError string
  | UnknownTool string

fun errorMessage :: "imap_error \<Rightarrow> string" where
  "errorMessage NotConnected = ''IMAP client not connected''"
| "errorMessage NoConnectionConfig = ''Cannot reconnect: no connection config stored''"
| "errorMessage (EmailNotFound i) = ''Email '' @ i @ '' not found''"
| "errorMessage (CannotDeleteProtected f) = ''Cannot delete protected folder: '' @ f"
| "errorMessage (CannotRenameProtected f) = ''Cannot rename protected folder: '' @ f"
| "errorMessage (FolderAlreadyExists f) = ''Folder '' @ [CHR 0x27] @ f @ [CHR 0x27] @ '' already exists''"
| "errorMessage (FolderDoesNotExist f) = ''Folder '' @ [CHR 0x27] @ f @ [CHR 0x27] @ '' does not exist''"
| "errorMessage (FolderNotEmpty f) =
     ''Folder '' @ [CHR 0x27] @ f @ [CHR 0x27] @ '' is not empty. Move or delete emails first.''"
| "errorMessage (ProviderError m r) = m"
| "errorMessage (ParseError m) = m"
| "errorMessage (TypeError m) = m"
| "errorMessage (UnknownTool n) = ''MCP error -32601: Unknown tool: '' @ n"

section \<open>The IMAP service\<close>

record email_folder =
  folder_name :: string
  folder_path :: string
  totalMessages :: nat
  unreadMessages :: nat
  specialUse :: "string option"

record connection_config =
  host :: string
  port :: nat
  username :: "string option"
  password :: "string option"

text \<open>
  The state of a \<^verbatim>\<open>SimpleIMAPService\<close>. \<open>client\<close> holds whether \<^verbatim>\<open>this.client\<close> is
  an object rather than \<^verbatim>\<open>null\<close>.
\<close>

record imap_service =
  client :: bool
  isConnected :: bool
  emailCache :: "(string \<times> email_message) list"
  folderCache :: "(string \<times> email_folder) list"
  connectionConfig :: "connection_config option"
  calls :: "provider_call list"

text \<open>Issuing a call: it is recorded, and the provider's error for it, if any, is thrown.\<close>

definition issue :: "imap_provider \<Rightarrow> provider_call \<Rightarrow> imap_service \<Rightarrow> imap_error option \<times> imap_service" where
  "issue P c s =
     (case failure P c of None \<Rightarrow> None | Some (m, r) \<Rightarrow> Some (ProviderError m r),
      s\<lparr>calls := calls s @ [c]\<rparr>)"

definition release :: "string \<Rightarrow> imap_service \<Rightarrow> imap_service" where
  "release f s = s\<lparr>calls := calls s @ [LockRelease f]\<rparr>"

definition connect :: "imap_provider \<Rightarrow> imap_service \<Rightarrow> connection_config \<Rightarrow> imap_error option \<times> imap_service" where
  "connect P s cfg =
     (case issue P Connect (s\<lparr>connectionConfig := Some cfg, client := True\<rparr>) of
        (None, s') \<Rightarrow> (None, s'\<lparr>isConnected := True\<rparr>)
      | (Some e, s') \<Rightarrow> (Some e, s'\<lparr>isConnected := False\<rparr>))"

definition reconnect :: "imap_provider \<Rightarrow> imap_service \<Rightarrow> imap_error option \<times> imap_service" where
  "reconnect P s =
     (case connectionConfig s of
        None \<Rightarrow> (Some NoConnectionConfig, s)
      | Some cfg \<Rightarrow> connect P s cfg)"

definition ensureConnection :: "imap_provider \<Rightarrow> imap_service \<Rightarrow> imap_error option \<times> imap_service" where
  "ensureConnection P s =
     (if \<not> isConnected s \<or> \<not> client s then reconnect P s else (None, s))"

subsection \<open>Folder operations\<close>

text \<open>
  \<^verbatim>\<open>toLowerCase()\<close> on code units below 256: the ASCII capitals and the Latin-1 capitals
  (all of \<open>0xC0\<close> to \<open>0xDE\<close> but the multiplication sign) move up by 32.
\<close>

definition toLowerChar :: "char \<Rightarrow> char" where
  "toLowerChar c =
     (let n = (of_char c :: nat) in
      if (65 \<le> n \<and> n \<le> 90) \<or> (192 \<le> n \<and> n \<le> 222 \<and> n \<noteq> 215)
      then char_of (n + 32) else c)"

definition toLowerCase :: "string \<Rightarrow> string" where
  "toLowerCase s = map toLowerChar s"

definition protectedFolders :: "string list" where
  "protectedFolders = [''INBOX'', ''Sent'', ''Drafts'', ''Trash'', ''Spam'', ''Archive'', ''All Mail'']"

text \<open>\<^verbatim>\<open>protectedFolders.some(f => folderName.toLowerCase() === f.toLowerCase())\<close>\<close>

definition isProtected :: "string \<Rightarrow> bool" where
  "isProtected folderName = list_ex (\<lambda>f. toLowerCase folderName = toLowerCase f) protectedFolders"

text \<open>\<^verbatim>\<open>haystack.includes(needle)\<close>\<close>

fun stringIncludes :: "string \<Rightarrow> string \<Rightarrow> bool" where
  "stringIncludes [] needle = (needle = [])"
| "stringIncludes (c # cs) needle = (take (length needle) (c # cs) = needle \<or> stringIncludes cs needle)"

text \<open>\<^verbatim>\<open>error.responseText?.includes(marker)\<close> for a thrown error.\<close>

fun responseIncludes :: "imap_error \<Rightarrow> string \<Rightarrow> bool" where
  "responseIncludes (ProviderError m (Some r)) marker = stringIncludes r marker"
| "responseIncludes _ marker = False"

definition createFolder :: "imap_provider \<Rightarrow> imap_service \<Rightarrow> string \<Rightarrow> (imap_error + bool) \<times> imap_service" where
  "createFolder P s folderName =
     (if \<not> isConnected s \<or> \<not> client s then (Inl NotConnected, s)
      else
        case issue P (MailboxCreate folderName) s of
          (None, s') \<Rightarrow> (Inr True, s'\<lparr>folderCache := []\<rparr>)
        | (Some e, s') \<Rightarrow>
            if responseIncludes e ''ALREADYEXISTS'' then (Inl (FolderAlreadyExists folderName), s')
            else (Inl e, s'))"

definition deleteFolder :: "imap_provider \<Rightarrow> imap_service \<Rightarrow> string \<Rightarrow> (imap_error + bool) \<times> imap_service" where
  "deleteFolder P s folderName =
     (if \<not> isConnected s \<or> \<not> client s then (Inl NotConnected, s)
      else if isProtected folderName then (Inl (CannotDeleteProtected folderName), s)
      else
        case issue P (MailboxDelete folderName) s of
          (None, s') \<Rightarrow> (Inr True, s'\<lparr>folderCache := []\<rparr>)
        | (Some e, s') \<Rightarrow>
            if responseIncludes e ''NONEXISTENT'' then (Inl (FolderDoesNotExist folderName), s')
            else if responseIncludes e ''HASCHILDREN'' \<or> responseIncludes e ''not empty''
            then (Inl (FolderNotEmpty folderName), s')
            else (Inl e, s'))"

definition renameFolder :: "imap_provider \<Rightarrow> imap_service \<Rightarrow> string \<Rightarrow> string \<Rightarrow> (imap_error + bool) \<times> imap_service" where
  "renameFolder P s oldName newName =
     (if \<not> isConnected s \<or> \<not> client s then (Inl NotConnected, s)
      else if isProtected oldName then (Inl (CannotRenameProtected oldName), s)
      else
        case issue P (MailboxRename oldName newName) s of
          (None, s') \<Rightarrow> (Inr True, s'\<lparr>folderCache := []\<rparr>)
        | (Some e, s') \<Rightarrow>
            if responseIncludes e ''NONEXISTENT'' then (Inl (FolderDoesNotExist oldName), s')
            else if responseIncludes e ''ALREADYEXISTS'' then (Inl (FolderAlreadyExists newName), s')
            else (Inl e, s'))"

text \<open>
  The protected set as the specification lists it, and equality of two names under
  case-insensitive comparison: the same length, and at every position the same letter up
  to case.
\<close>

definition systemFolders :: "string list" where
  "systemFolders = [''Inbox'', ''Sent'', ''Drafts'', ''Trash'', ''Spam'', ''Archive'', ''All Mail'']"

definition equalIgnoringCase :: "string \<Rightarrow> string \<Rightarrow> bool" where
  "equalIgnoringCase a b \<longleftrightarrow> list_all2 (\<lambda>x y. toLowerChar x = toLowerChar y) a b"

definition isSystemFolder :: "string \<Rightarrow> bool" where
  "isSystemFolder folderName \<longleftrightarrow> list_ex (equalIgnoringCase folderName) systemFolders"

subsection \<open>Reading\<close>

text \<open>\<^verbatim>\<open>v || d\<close> for an optional string: an absent and an empty one give \<open>d\<close>.\<close>

definition orElse :: "string option \<Rightarrow> string \<Rightarrow> string" where
  "orElse v d = (case v of None \<Rightarrow> d | Some t \<Rightarrow> if t = [] then d else t)"

definition seenFlag :: string where
  "seenFlag = CHR 0x5C # ''Seen''"

definition flaggedFlag :: string where
  "flaggedFlag = CHR 0x5C # ''Flagged''"

definition toAttachment :: "parsed_attachment \<Rightarrow> email_attachment" where
  "toAttachment att =
     \<lparr>filename = orElse (a_filename att) ''unnamed'', contentType = a_contentType att,
      att_size = a_size att, content = Some (a_content att), contentId = a_cid att\<rparr>"

text \<open>
  The message object that \<^verbatim>\<open>getEmails\<close> and \<^verbatim>\<open>getEmailById\<close> build from a fetched
  message and its parse; \<open>now\<close> stands for \<^verbatim>\<open>new Date()\<close>.
\<close>

definition toEmailMessage :: "int \<Rightarrow> string \<Rightarrow> remote_message \<Rightarrow> parsed_mail \<Rightarrow> email_message" where
  "toEmailMessage now folderPath message parsed =
     (let fullBody = orElse (p_text parsed) (orElse (p_html parsed) [])
      in \<lparr>msg_id = rm_uid message,
          msg_from = orElse (p_from parsed) [],
          msg_to = (case p_to parsed of None \<Rightarrow> [] | Some t \<Rightarrow> if t = [] then [] else [t]),
          cc = (case p_cc parsed of None \<Rightarrow> [] | Some t \<Rightarrow> if t = [] then [] else [t]),
          subject = orElse (p_subject parsed) ''(No Subject)'',
          body = fullBody,
          bodyPreview = truncateBody fullBody 300,
          isHtml = (case p_html parsed of None \<Rightarrow> False | Some h \<Rightarrow> h \<noteq> []),
          date = (case p_date parsed of None \<Rightarrow> now | Some d \<Rightarrow> d),
          folder = folderPath,
          isRead = (seenFlag \<in> set (rm_flags message)),
          isStarred = (flaggedFlag \<in> set (rm_flags message)),
          hasAttachment = (case p_attachments parsed of None \<Rightarrow> False | Some atts \<Rightarrow> atts \<noteq> []),
          attachments = map_option (map toAttachment) (p_attachments parsed)\<rparr>)"

text \<open>The view of a message in a list: the body truncated, the attachments without content.\<close>

definition listView :: "email_message \<Rightarrow> email_message" where
  "listView e =
     e\<lparr>body := truncateBody (body e) 300,
       attachments := map_option (map (\<lambda>att. att\<lparr>content := None\<rparr>)) (attachments e)\<rparr>"

definition findFolder :: "imap_provider \<Rightarrow> string \<Rightarrow> remote_folder option" where
  "findFolder P folderPath = find (\<lambda>f. rf_path f = folderPath) (remoteFolders P)"

text \<open>\<^verbatim>\<open>mailbox.exists\<close> of the locked folder, 0 without a mailbox.\<close>

definition mailboxExists :: "imap_provider \<Rightarrow> string \<Rightarrow> int" where
  "mailboxExists P folderPath =
     (case findFolder P folderPath of None \<Rightarrow> 0 | Some f \<Rightarrow> int (length (rf_messages f)))"

text \<open>What \<^verbatim>\<open>fetch\<close> yields for a sequence range (1-based, both ends included) and for a uid.\<close>

definition fetchRange :: "imap_provider \<Rightarrow> string \<Rightarrow> int \<Rightarrow> int \<Rightarrow> remote_message list" where
  "fetchRange P folderPath start endSeq =
     (case findFolder P folderPath of
        None \<Rightarrow> []
      | Some f \<Rightarrow> take (nat (endSeq - start + 1)) (drop (nat (start - 1)) (rf_messages f)))"

definition fetchByUid :: "imap_provider \<Rightarrow> string \<Rightarrow> string \<Rightarrow> remote_message list" where
  "fetchByUid P folderPath uid =
     (case findFolder P folderPath of
        None \<Rightarrow> []
      | Some f \<Rightarrow> filter (\<lambda>m. rm_uid m = uid) (rf_messages f))"

fun statusLoop ::
  "imap_provider \<Rightarrow> remote_folder list \<Rightarrow> email_folder list \<Rightarrow> imap_service
     \<Rightarrow> (imap_error + email_folder list) \<times> imap_service" where
  "statusLoop P [] result s = (Inr result, s)"
| "statusLoop P (f # fs) result s =
     (case issue P (Status (rf_path f)) s of
        (Some e, s') \<Rightarrow> (Inl e, s')
      | (None, s') \<Rightarrow>
          statusLoop P fs
            (result @ [\<lparr>folder_name = rf_name f, folder_path = rf_path f,
                         totalMessages = length (rf_messages f),
                         unreadMessages = length (filter (\<lambda>m. seenFlag \<notin> set (rm_flags m)) (rf_messages f)),
                         specialUse = rf_specialUse f\<rparr>])
            (s'\<lparr>folderCache := AList.update (rf_path f)
                   \<lparr>folder_name = rf_name f, folder_path = rf_path f,
                    totalMessages = length (rf_messages f),
                    unreadMessages = length (filter (\<lambda>m. seenFlag \<notin> set (rm_flags m)) (rf_messages f)),
                    specialUse = rf_specialUse f\<rparr> (folderCache s')\<rparr>))"

definition getFolders :: "imap_provider \<Rightarrow> imap_service \<Rightarrow> (imap_error + email_folder list) \<times> imap_service" where
  "getFolders P s =
     (case ensureConnection P s of
        (Some e, s1) \<Rightarrow> (Inr (map snd (folderCache s1)), s1)
      | (None, s1) \<Rightarrow>
          if \<not> client s1 then (Inr (map snd (folderCache s1)), s1)
          else
            case issue P ListFolders s1 of
              (Some e, s2) \<Rightarrow> (Inl e, s2)
            | (None, s2) \<Rightarrow> statusLoop P (remoteFolders P) [] s2)"

text \<open>
  The loop of \<^verbatim>\<open>getEmails\<close> over the fetched messages: one without source is passed
  over, one the parser throws on is logged and passed over, any other is cached in full
  and listed in its list view.
\<close>

fun fetchLoop ::
  "int \<Rightarrow> string \<Rightarrow> remote_message list \<Rightarrow> email_message list \<Rightarrow> imap_service
     \<Rightarrow> email_message list \<times> imap_service" where
  "fetchLoop now folderPath [] messages s = (messages, s)"
| "fetchLoop now folderPath (m # ms) messages s =
     (case rm_source m of
        NoSource \<Rightarrow> fetchLoop now folderPath ms messages s
      | Unparsable err \<Rightarrow> fetchLoop now folderPath ms messages s
      | Parsable parsed \<Rightarrow>
          fetchLoop now folderPath ms
            (messages @ [listView (toEmailMessage now folderPath m parsed)])
            (s\<lparr>emailCache := AList.update (msg_id (toEmailMessage now folderPath m parsed))
                  (toEmailMessage now folderPath m parsed) (emailCache s)\<rparr>))"

definition getEmails ::
  "imap_provider \<Rightarrow> int \<Rightarrow> imap_service \<Rightarrow> string \<Rightarrow> int \<Rightarrow> int
     \<Rightarrow> (imap_error + email_message list) \<times> imap_service" where
  "getEmails P now s folderPath limit offset =
     (case ensureConnection P s of
        (Some e, s1) \<Rightarrow> (Inr [], s1)
      | (None, s1) \<Rightarrow>
          if \<not> client s1 then (Inr [], s1)
          else
            case issue P (GetMailboxLock folderPath) s1 of
              (Some e, s2) \<Rightarrow> (Inl e, s2)
            | (None, s2) \<Rightarrow>
                let total = mailboxExists P folderPath;
                    start = max 1 (total - offset - limit + 1);
                    endSeq = max 1 (total - offset)
                in if start > endSeq \<or> total = 0 then (Inr [], release folderPath s2)
                   else
                     case issue P (FetchRange start endSeq) s2 of
                       (Some e, s3) \<Rightarrow> (Inl e, release folderPath s3)
                     | (None, s3) \<Rightarrow>
                         (case fetchLoop now folderPath (fetchRange P folderPath start endSeq) [] s3 of
                            (messages, s4) \<Rightarrow> (Inr (rev messages), release folderPath s4)))"

text \<open>
  The loop of \<^verbatim>\<open>getEmailById\<close> over the messages fetched by uid in one folder: the first
  one with a source ends it, with the message built or with the parser's error.
\<close>

fun fetchLoopById :: "int \<Rightarrow> string \<Rightarrow> remote_message list \<Rightarrow> (imap_error + email_message) option" where
  "fetchLoopById now folderPath [] = None"
| "fetchLoopById now folderPath (m # ms) =
     (case rm_source m of
        NoSource \<Rightarrow> fetchLoopById now folderPath ms
      | Unparsable err \<Rightarrow> Some (Inl (ParseError err))
      | Parsable parsed \<Rightarrow> Some (Inr (toEmailMessage now folderPath m parsed)))"

fun searchFolders ::
  "imap_provider \<Rightarrow> int \<Rightarrow> string \<Rightarrow> email_folder list \<Rightarrow> imap_service
     \<Rightarrow> (imap_error + email_message option) \<times> imap_service" where
  "searchFolders P now emailId [] s = (Inr None, s)"
| "searchFolders P now emailId (f # fs) s =
     (case issue P (GetMailboxLock (folder_path f)) s of
        (Some e, s1) \<Rightarrow> (Inl e, s1)
      | (None, s1) \<Rightarrow>
          (case issue P (FetchUid emailId) s1 of
             (Some e, s2) \<Rightarrow> (Inl e, release (folder_path f) s2)
           | (None, s2) \<Rightarrow>
               (case fetchLoopById now (folder_path f) (fetchByUid P (folder_path f) emailId) of
                  None \<Rightarrow> searchFolders P now emailId fs (release (folder_path f) s2)
                | Some (Inl e) \<Rightarrow> (Inl e, release (folder_path f) s2)
                | Some (Inr emailMessage) \<Rightarrow>
                    (Inr (Some emailMessage),
                     release (folder_path f)
                       (s2\<lparr>emailCache := AList.update (msg_id emailMessage) emailMessage (emailCache s2)\<rparr>)))))"

definition getEmailById ::
  "imap_provider \<Rightarrow> int \<Rightarrow> imap_service \<Rightarrow> string \<Rightarrow> (imap_error + email_message option) \<times> imap_service" where
  "getEmailById P now s emailId =
     (case map_of (emailCache s) emailId of
        Some e \<Rightarrow> (Inr (Some e), s)
      | None \<Rightarrow>
          if \<not> client s \<or> \<not> isConnected s then (Inr None, s)
          else
            case getFolders P s of
              (Inl e, s1) \<Rightarrow> (Inl e, s1)
            | (Inr folders, s1) \<Rightarrow> searchFolders P now emailId folders s1)"

subsection \<open>Searching\<close>

text \<open>\<^verbatim>\<open>SearchEmailOptions\<close>\<close>

record search_email_options =
  o_query :: "string option"
  o_folder :: "string option"
  o_from :: "string option"
  o_to :: "string option"
  o_subject :: "string option"
  o_hasAttachment :: "bool option"
  o_isRead :: "bool option"
  o_isStarred :: "bool option"
  o_dateFrom :: "string option"
  o_dateTo :: "string option"
  o_limit :: "int option"

text \<open>\<^verbatim>\<open>if (v) criteria.field = v\<close> for an optional string: set when present and not empty.\<close>

definition whenSet :: "string option \<Rightarrow> string option" where
  "whenSet v = (case v of None \<Rightarrow> None | Some t \<Rightarrow> if t = [] then None else Some t)"

text \<open>The construction of \<^verbatim>\<open>searchCriteria\<close> in \<^verbatim>\<open>searchEmails\<close>.\<close>

definition buildSearchCriteria :: "search_email_options \<Rightarrow> search_criteria" where
  "buildSearchCriteria options =
     \<lparr>c_from = whenSet (o_from options),
      c_to = whenSet (o_to options),
      c_subject = whenSet (o_subject options),
      c_since = whenSet (o_dateFrom options),
      c_before = whenSet (o_dateTo options),
      c_seen = (case o_isRead options of None \<Rightarrow> False | Some r \<Rightarrow> r),
      c_unseen = (case o_isRead options of None \<Rightarrow> False | Some r \<Rightarrow> \<not> r),
      c_flagged = (case o_isStarred options of None \<Rightarrow> False | Some st \<Rightarrow> st)\<rparr>"

text \<open>\<^verbatim>\<open>uids.slice(0, limit)\<close>: a negative limit counts from the end.\<close>

definition slice0 :: "'a list \<Rightarrow> int \<Rightarrow> 'a list" where
  "slice0 xs limit =
     (if limit < 0 then take (nat (int (length xs) + limit)) xs else take (nat limit) xs)"

fun searchLoop ::
  "imap_provider \<Rightarrow> int \<Rightarrow> string list \<Rightarrow> email_message list \<Rightarrow> imap_service
     \<Rightarrow> (imap_error + email_message list) \<times> imap_service" where
  "searchLoop P now [] results s = (Inr results, s)"
| "searchLoop P now (uid # uids) results s =
     (case getEmailById P now s uid of
        (Inl e, s') \<Rightarrow> (Inl e, s')
      | (Inr None, s') \<Rightarrow> searchLoop P now uids results s'
      | (Inr (Some em), s') \<Rightarrow> searchLoop P now uids (results @ [listView em]) s')"

definition searchEmails ::
  "imap_provider \<Rightarrow> int \<Rightarrow> imap_service \<Rightarrow> search_email_options
     \<Rightarrow> (imap_error + email_message list) \<times> imap_service" where
  "searchEmails P now s options =
     (case ensureConnection P s of
        (Some e, s1) \<Rightarrow> (Inr [], s1)
      | (None, s1) \<Rightarrow>
          if \<not> client s1 then (Inr [], s1)
          else
            let folderPath = orElse (o_folder options) ''INBOX'';
                limit = (case o_limit options of None \<Rightarrow> 100 | Some l \<Rightarrow> if l = 0 then 100 else l)
            in case issue P (GetMailboxLock folderPath) s1 of
                 (Some e, s2) \<Rightarrow> (Inl e, s2)
               | (None, s2) \<Rightarrow>
                   (case issue P (Search (buildSearchCriteria options)) s2 of
                      (Some e, s3) \<Rightarrow> (Inl e, release folderPath s3)
                    | (None, s3) \<Rightarrow>
                        (case searchLoop P now
                                (case searchUids P folderPath (buildSearchCriteria options) of
                                   None \<Rightarrow> [] | Some uids \<Rightarrow> slice0 uids limit)
                                [] s3 of
                           (r, s4) \<Rightarrow> (r, release folderPath s4))))"

subsection \<open>Mutations\<close>

text \<open>
  \<^verbatim>\<open>if (this.emailCache.has(emailId)) { ... }\<close>: the cached message, when there is one, is
  changed in place.
\<close>

definition updateCached ::
  "string \<Rightarrow> (email_message \<Rightarrow> email_message) \<Rightarrow> imap_service \<Rightarrow> imap_service" where
  "updateCached emailId change s =
     (case map_of (emailCache s) emailId of
        None \<Rightarrow> s
      | Some cachedEmail \<Rightarrow> s\<lparr>emailCache := AList.update emailId (change cachedEmail) (emailCache s)\<rparr>)"

text \<open>
  The four single-message mutations share their shape: the connection guard, the lookup,
  the lock on the message's folder, the provider call, the change of the cache.
\<close>

definition mutateEmail ::
  "imap_provider \<Rightarrow> int \<Rightarrow> imap_service \<Rightarrow> string \<Rightarrow> provider_call
     \<Rightarrow> (imap_service \<Rightarrow> imap_service) \<Rightarrow> (imap_error + bool) \<times> imap_service" where
  "mutateEmail P now s emailId providerCall cacheChange =
     (if \<not> client s \<or> \<not> isConnected s then (Inr False, s)
      else
        case getEmailById P now s emailId of
          (Inl e, s1) \<Rightarrow> (Inl e, s1)
        | (Inr None, s1) \<Rightarrow> (Inl (EmailNotFound emailId), s1)
        | (Inr (Some em), s1) \<Rightarrow>
            (case issue P (GetMailboxLock (folder em)) s1 of
               (Some e, s2) \<Rightarrow> (Inl e, s2)
             | (None, s2) \<Rightarrow>
                 (case issue P providerCall s2 of
                    (Some e, s3) \<Rightarrow> (Inl e, release (folder em) s3)
                  | (None, s3) \<Rightarrow> (Inr True, release (folder em) (cacheChange s3)))))"




definition deleteEmail ::
  "imap_provider \<Rightarrow> int \<Rightarrow> imap_service \<Rightarrow> string \<Rightarrow> (imap_error + bool) \<times> imap_service" where
  "deleteEmail P now s emailId =
     mutateEmail P now s emailId (MessageDelete emailId)
       (\<lambda>s'. s'\<lparr>emailCache := AList.delete emailId (emailCache s')\<rparr>)"

subsection \<open>Bulk move\<close>

record bulk_result =
  success :: nat
  failed :: nat
  errors :: "string list"

text \<open>\<^verbatim>\<open>emailsByFolder\<close>: the identifiers by source folder, folders in order of first use.\<close>

definition addToFolder :: "string \<Rightarrow> string \<Rightarrow> (string \<times> string list) list \<Rightarrow> (string \<times> string list) list" where
  "addToFolder f emailId byFolder =
     AList.update f ((case map_of byFolder f of None \<Rightarrow> [] | Some ids \<Rightarrow> ids) @ [emailId]) byFolder"

text \<open>The first loop of \<^verbatim>\<open>bulkMoveEmails\<close>: every identifier is looked up.\<close>

fun lookupLoop ::
  "imap_provider \<Rightarrow> int \<Rightarrow> string list \<Rightarrow> bulk_result \<Rightarrow> (string \<times> string list) list \<Rightarrow> imap_service
     \<Rightarrow> bulk_result \<times> (string \<times> string list) list \<times> imap_service" where
  "lookupLoop P now [] results byFolder s = (results, byFolder, s)"
| "lookupLoop P now (emailId # emailIds) results byFolder s =
     (case getEmailById P now s emailId of
        (Inr None, s') \<Rightarrow>
          lookupLoop P now emailIds
            (results\<lparr>failed := failed results + 1,
                     errors := errors results @ [''Email '' @ emailId @ '' not found'']\<rparr>)
            byFolder s'
      | (Inr (Some em), s') \<Rightarrow>
          lookupLoop P now emailIds results (addToFolder (folder em) emailId byFolder) s'
      | (Inl e, s') \<Rightarrow>
          lookupLoop P now emailIds
            (results\<lparr>failed := failed results + 1,
                     errors := errors results
                       @ [''Error fetching email '' @ emailId @ '': '' @ errorMessage e]\<rparr>)
            byFolder s')"

text \<open>The inner loop of the second part: the messages of one source folder are moved.\<close>

fun moveLoop ::
  "imap_provider \<Rightarrow> string \<Rightarrow> string list \<Rightarrow> bulk_result \<Rightarrow> imap_service \<Rightarrow> bulk_result \<times> imap_service" where
  "moveLoop P targetFolder [] results s = (results, s)"
| "moveLoop P targetFolder (emailId # ids) results s =
     (case issue P (MessageMove emailId targetFolder) s of
        (None, s') \<Rightarrow>
          moveLoop P targetFolder ids (results\<lparr>success := success results + 1\<rparr>)
            (updateCached emailId (\<lambda>cachedEmail. cachedEmail\<lparr>folder := targetFolder\<rparr>) s')
      | (Some e, s') \<Rightarrow>
          moveLoop P targetFolder ids
            (results\<lparr>failed := failed results + 1,
                     errors := errors results
                       @ [''Failed to move email '' @ emailId @ '': '' @ errorMessage e]\<rparr>)
            s')"

text \<open>The outer loop: one lock per source folder; a lock that fails ends the operation.\<close>

fun folderLoop ::
  "imap_provider \<Rightarrow> string \<Rightarrow> (string \<times> string list) list \<Rightarrow> bulk_result \<Rightarrow> imap_service
     \<Rightarrow> (imap_error + bulk_result) \<times> imap_service" where
  "folderLoop P targetFolder [] results s = (Inr results, s)"
| "folderLoop P targetFolder ((sourceFolder, ids) # rest) results s =
     (case issue P (GetMailboxLock sourceFolder) s of
        (Some e, s') \<Rightarrow> (Inl e, s')
      | (None, s') \<Rightarrow>
          (case moveLoop P targetFolder ids results s' of
             (results', s'') \<Rightarrow> folderLoop P targetFolder rest results' (release sourceFolder s'')))"

definition bulkMoveEmails ::
  "imap_provider \<Rightarrow> int \<Rightarrow> imap_service \<Rightarrow> string list \<Rightarrow> string
     \<Rightarrow> (imap_error + bulk_result) \<times> imap_service" where
  "bulkMoveEmails P now s emailIds targetFolder =
     (if \<not> client s \<or> \<not> isConnected s then (Inl NotConnected, s)
      else
        case lookupLoop P now emailIds \<lparr>success = 0, failed = 0, errors = []\<rparr> [] s of
          (results, byFolder, s') \<Rightarrow> folderLoop P targetFolder byFolder results s')"

section \<open>The tool surface\<close>

text \<open>
  The handler of \<^verbatim>\<open>CallToolRequestSchema\<close> in \<^verbatim>\<open>index.ts\<close>, for the tools that delete
  and that move or delete in bulk. A reply is its text and its \<^verbatim>\<open>isError\<close> mark; the
  emoji that opens every text is left out, being no code unit below 256.
\<close>

record tool_response =
  response_text :: string
  isError :: bool

record tool_args =
  arg_emailId :: string
  arg_emailIds :: "string list"
  arg_targetFolder :: string

text \<open>
  The methods that class \<^verbatim>\<open>SimpleIMAPService\<close> declares. A call
  \<^verbatim>\<open>imapService.m(...)\<close> of a name that is not among them finds \<^verbatim>\<open>undefined\<close> and throws
  a \<^verbatim>\<open>TypeError\<close>, and nothing is run.
\<close>

definition SimpleIMAPService_methods :: "string list" where
  "SimpleIMAPService_methods =
     [''connect'', ''disconnect'', ''reconnect'', ''ensureConnection'', ''isActive'',
      ''getFolders'', ''getEmails'', ''getEmailById'', ''searchEmails'', ''markEmailRead'',
      ''starEmail'', ''moveEmail'', ''bulkMoveEmails'', ''deleteEmail'', ''createFolder'',
      ''deleteFolder'', ''renameFolder'', ''clearCache'']"

definition callMethod ::
  "string \<Rightarrow> (imap_service \<Rightarrow> (imap_error + 'a) \<times> imap_service) \<Rightarrow> imap_service
     \<Rightarrow> (imap_error + 'a) \<times> imap_service" where
  "callMethod m run s =
     (if m \<in> set SimpleIMAPService_methods then run s
      else (Inl (TypeError (''imapService.'' @ m @ '' is not a function'')), s))"

text \<open>A natural number in decimal, as a template literal prints it.\<close>

function showNat :: "nat \<Rightarrow> string" where
  "showNat n = (if n < 10 then [char_of (48 + n)] else showNat (n div 10) @ [char_of (48 + n mod 10)])"
  by pat_completeness auto
termination
  by (relation "measure id") auto

text \<open>\<^verbatim>\<open>lines.join('\n')\<close>\<close>

fun joinLines :: "string list \<Rightarrow> string" where
  "joinLines [] = []"
| "joinLines [l] = l"
| "joinLines (l # ls) = l @ [CHR 0x0A] @ joinLines ls"

definition bulkSummary :: "string \<Rightarrow> bulk_result \<Rightarrow> string" where
  "bulkSummary verb results =
     ''Bulk '' @ verb @ '' completed: '' @ showNat (success results) @ '' succeeded, ''
       @ showNat (failed results) @ '' failed''
       @ (if length (errors results) > 0
          then [CHR 0x0A, CHR 0x0A] @ ''Errors:'' @ [CHR 0x0A] @ joinLines (take 10 (errors results))
                 @ (if length (errors results) > 10
                    then [CHR 0x0A] @ ''... and '' @ showNat (length (errors results) - 10) @ '' more''
                    else [])
          else [])"

text \<open>The \<^verbatim>\<open>catch\<close> block of the handler.\<close>

definition errorResponse :: "imap_error \<Rightarrow> tool_response" where
  "errorResponse e =
     \<lparr>response_text = ''Error: '' @ (if errorMessage e = [] then ''Unknown error occurred'' else errorMessage e),
      isError = True\<rparr>"

text \<open>
  The class has no method \<^verbatim>\<open>bulkDeleteEmails\<close>; \<open>bulkDelete\<close> stands for whatever such a
  method would do, so that the case of the handler can be written down as it is.
\<close>

definition handleToolCall ::
  "(imap_service \<Rightarrow> string list \<Rightarrow> (imap_error + bulk_result) \<times> imap_service)
     \<Rightarrow> imap_provider \<Rightarrow> int \<Rightarrow> imap_service \<Rightarrow> string \<Rightarrow> tool_args
     \<Rightarrow> tool_response \<times> imap_service" where
  "handleToolCall bulkDelete P now s name args =
     (if name = ''delete_email'' then
        (case callMethod ''deleteEmail'' (\<lambda>s. deleteEmail P now s (arg_emailId args)) s of
           (Inl e, s') \<Rightarrow> (errorResponse e, s')
         | (Inr ok, s') \<Rightarrow>
             (\<lparr>response_text = (if ok then ''Email deleted successfully'' else ''Failed to delete email''),
               isError = False\<rparr>, s'))
      else if name = ''bulk_move_emails'' then
        (case callMethod ''bulkMoveEmails''
                (\<lambda>s. bulkMoveEmails P now s (arg_emailIds args) (arg_targetFolder args)) s of
           (Inl e, s') \<Rightarrow> (errorResponse e, s')
         | (Inr results, s') \<Rightarrow> (\<lparr>response_text = bulkSummary ''move'' results, isError = False\<rparr>, s'))
      else if name = ''bulk_delete_emails'' then
        (case callMethod ''bulkDeleteEmails'' (\<lambda>s. bulkDelete s (arg_emailIds args)) s of
           (Inl e, s') \<Rightarrow> (errorResponse e, s')
         | (Inr results, s') \<Rightarrow> (\<lparr>response_text = bulkSummary ''delete'' results, isError = False\<rparr>, s'))
      else (errorResponse (UnknownTool name), s))"

section \<open>Notions for the properties of the service\<close>

text \<open>
  The errors that come from the provider or the parser, and a step of the service that
  keeps the connection and only adds to the trace of calls.
\<close>

fun thrownByProvider :: "imap_error \<Rightarrow> bool" where
  "thrownByProvider (ProviderError m r) = True"
| "thrownByProvider (ParseError m) = True"
| "thrownByProvider _ = False"

definition extends :: "imap_service \<Rightarrow> imap_service \<Rightarrow> bool" where
  "extends s s' \<longleftrightarrow> client s' = client s \<and> isConnected s' = isConnected s
     \<and> connectionConfig s' = connectionConfig s \<and> prefix (calls s) (calls s')"


text \<open>
  \<open>agrees P now s sk\<close>: the service \<open>sk\<close> is connected, and its message cache is that of
  \<open>s\<close> but for identifiers that \<open>s\<close> had not cached and that \<open>sk\<close> binds to what the lookup
  in \<open>s\<close> finds. \<open>movedTo t sk i\<close>: the cache of \<open>sk\<close> holds \<open>i\<close> with folder \<open>t\<close>.
\<close>

definition agrees :: "imap_provider \<Rightarrow> int \<Rightarrow> imap_service \<Rightarrow> imap_service \<Rightarrow> bool" where
  "agrees P now s sk \<longleftrightarrow>
     client sk \<and> isConnected sk \<and>
     (\<forall>i. map_of (emailCache sk) i = map_of (emailCache s) i \<or>
          (map_of (emailCache s) i = None \<and>
           (\<exists>em. map_of (emailCache sk) i = Some em \<and> fst (getEmailById P now s i) = Inr (Some em))))"

definition movedTo :: "string \<Rightarrow> imap_service \<Rightarrow> string \<Rightarrow> bool" where
  "movedTo t sk i \<longleftrightarrow> (case map_of (emailCache sk) i of None \<Rightarrow> False | Some em \<Rightarrow> folder em = t)"

text \<open>
  An identifier resolves when its lookup in \<open>s\<close> returns a message. It is movable to
  \<open>t\<close> when it resolves and the provider throws neither on the lock of that message's
  folder nor on the move of the identifier to \<open>t\<close>. An error message names an identifier
  when it contains it.
\<close>

definition resolves :: "imap_provider \<Rightarrow> int \<Rightarrow> imap_service \<Rightarrow> string \<Rightarrow> bool" where
  "resolves P now s i \<longleftrightarrow>
     (case fst (getEmailById P now s i) of Inr (Some em) \<Rightarrow> True | _ \<Rightarrow> False)"

definition movable :: "imap_provider \<Rightarrow> int \<Rightarrow> imap_service \<Rightarrow> string \<Rightarrow> string \<Rightarrow> bool" where
  "movable P now s t i \<longleftrightarrow>
     (case fst (getEmailById P now s i) of
        Inr (Some em) \<Rightarrow>
          failure P (GetMailboxLock (folder em)) = None \<and> failure P (MessageMove i t) = None
      | _ \<Rightarrow> False)"

definition names :: "string \<Rightarrow> string \<Rightarrow> bool" where
  "names msg i \<longleftrightarrow> (\<exists>pre post. msg = pre @ i @ post)"

text \<open>
  A call that hands a search predicate to the provider, and a step of the service that
  only adds calls to the trace, none of them a search.
\<close>

fun isSearch :: "provider_call \<Rightarrow> bool" where
  "isSearch (Search c) = True"
| "isSearch _ = False"

definition quietly :: "imap_service \<Rightarrow> imap_service \<Rightarrow> bool" where
  "quietly s s' \<longleftrightarrow> (\<exists>cs. calls s' = calls s @ cs \<and> \<not> list_ex isSearch cs)"

section \<open>Sample sessions\<close>

text \<open>
  A service as the constructor leaves it, one after a successful \<^verbatim>\<open>connect\<close>, and a
  provider that holds the given folders and throws on no call.
\<close>

definition disconnectedService :: imap_service where
  "disconnectedService =
     \<lparr>client = False, isConnected = False, emailCache = [], folderCache = [],
      connectionConfig = None, calls = []\<rparr>"

definition connectedService :: imap_service where
  "connectedService =
     \<lparr>client = True, isConnected = True, emailCache = [], folderCache = [],
      connectionConfig = Some \<lparr>host = ''localhost'', port = 1143, username = None, password = None\<rparr>,
      calls = [Connect]\<rparr>"

definition healthyProvider :: "remote_folder list \<Rightarrow> imap_provider" where
  "healthyProvider fs = \<lparr>remoteFolders = fs, searchUids = (\<lambda>f c. Some []), failure = (\<lambda>c. None)\<rparr>"

definition inboxWith :: "remote_message list \<Rightarrow> imap_provider" where
  "inboxWith ms =
     healthyProvider [\<lparr>rf_name = ''INBOX'', rf_path = ''INBOX'', rf_specialUse = None, rf_messages = ms\<rparr>]"

definition plainMessage :: "string \<Rightarrow> string \<Rightarrow> remote_message" where
  "plainMessage uid txt =
     \<lparr>rm_uid = uid, rm_flags = [],
      rm_source = Parsable \<lparr>p_from = Some ''Ann <ann@example.com>'', p_to = Some ''bob@example.com'',
        p_cc = None, p_subject = Some ''Hello'', p_text = Some txt, p_html = None,
        p_date = Some 1700000000000, p_attachments = None\<rparr>\<rparr>"

definition threeMessages :: imap_provider where
  "threeMessages = inboxWith [plainMessage ''11'' ''first'', plainMessage ''12'' ''second'',
     plainMessage ''13'' ''third'']"

text \<open>
  An inbox of three messages whose search answers with the first message for a predicate
  that asks for flagged ones and with all three otherwise; and options that set nothing.
\<close>

definition flagAwareInbox :: imap_provider where
  "flagAwareInbox =
     threeMessages\<lparr>searchUids := (\<lambda>f c. if c_flagged c then Some [''11''] else Some [''11'', ''12'', ''13''])\<rparr>"

definition noFilter :: search_email_options where
  "noFilter =
     \<lparr>o_query = None, o_folder = None, o_from = None, o_to = None, o_subject = None,
      o_hasAttachment = None, o_isRead = None, o_isStarred = None, o_dateFrom = None,
      o_dateTo = None, o_limit = None\<rparr>"

section \<open>Properties of body previews\<close>

lemma isWhitespace_space: "isWhitespace (CHR 0x20)"
  by (simp add: isWhitespace_def)

lemma collapse_hd:
  assumes "collapseWhitespace (dropWhile isWhitespace cs) = x # xs"
  shows "x \<noteq> CHR 0x20"
proof (cases "dropWhile isWhitespace cs")
  case Nil
  with assms show ?thesis by simp
next
  case (Cons y ys)
  then have "\<not> isWhitespace y"
    by (simp add: dropWhile_eq_Cons_conv)
  with assms Cons show ?thesis
    using isWhitespace_space by auto
qed

lemma noDoubleSpace_collapse: "noDoubleSpace (collapseWhitespace s)"
proof (induction s rule: collapseWhitespace.induct)
  case 1
  then show ?case by simp
next
  case (2 c cs)
  show ?case
  proof (cases "isWhitespace c")
    case True
    then show ?thesis using 2 collapse_hd[of cs]
      by (cases "collapseWhitespace (dropWhile isWhitespace cs)") auto
  next
    case False
    then have "c \<noteq> CHR 0x20" using isWhitespace_space by auto
    then show ?thesis using 2 False
      by (cases "collapseWhitespace cs") auto
  qed
qed

lemma noDoubleSpace_nth:
  "noDoubleSpace xs \<Longrightarrow> Suc j < length xs \<Longrightarrow> xs ! Suc j = CHR 0x20 \<Longrightarrow> xs ! j \<noteq> CHR 0x20"
proof (induction xs arbitrary: j rule: noDoubleSpace.induct)
  case (1 a b cs)
  then show ?case by (cases j) auto
qed auto

lemma noDoubleSpace_iff:
  "noDoubleSpace xs \<longleftrightarrow> (\<forall>j. Suc j < length xs \<longrightarrow> \<not> (xs ! j = CHR 0x20 \<and> xs ! Suc j = CHR 0x20))"
proof (induction xs rule: noDoubleSpace.induct)
  case (1 a b cs)
  show ?case
  proof
    assume "noDoubleSpace (a # b # cs)"
    then show "\<forall>j. Suc j < length (a # b # cs) \<longrightarrow> \<not> ((a # b # cs) ! j = CHR 0x20 \<and> (a # b # cs) ! Suc j = CHR 0x20)"
      using noDoubleSpace_nth by blast
  next
    assume r: "\<forall>j. Suc j < length (a # b # cs) \<longrightarrow> \<not> ((a # b # cs) ! j = CHR 0x20 \<and> (a # b # cs) ! Suc j = CHR 0x20)"
    have "\<not> (a = CHR 0x20 \<and> b = CHR 0x20)" using r[rule_format, of 0] by simp
    moreover have "noDoubleSpace (b # cs)"
      unfolding 1
    proof (intro allI impI)
      fix j assume "Suc j < length (b # cs)"
      then show "\<not> ((b # cs) ! j = CHR 0x20 \<and> (b # cs) ! Suc j = CHR 0x20)"
        using r[rule_format, of "Suc j"] by simp
    qed
    ultimately show "noDoubleSpace (a # b # cs)" by simp
  qed
qed auto

lemma noDoubleSpace_rev: "noDoubleSpace xs \<Longrightarrow> noDoubleSpace (rev xs)"
  unfolding noDoubleSpace_iff
proof (intro allI impI)
  fix j
  assume h: "\<forall>j. Suc j < length xs \<longrightarrow> \<not> (xs ! j = CHR 0x20 \<and> xs ! Suc j = CHR 0x20)"
    and j: "Suc j < length (rev xs)"
  let ?k = "length xs - Suc (Suc j)"
  have "rev xs ! j = xs ! Suc ?k" "rev xs ! Suc j = xs ! ?k"
    using j by (simp_all add: rev_nth Suc_diff_Suc)
  moreover have "Suc ?k < length xs" using j by simp
  ultimately show "\<not> (rev xs ! j = CHR 0x20 \<and> rev xs ! Suc j = CHR 0x20)"
    using h by metis
qed

lemma noDoubleSpace_tl: "noDoubleSpace (x # xs) \<Longrightarrow> noDoubleSpace xs"
  by (cases xs) auto

lemma noDoubleSpace_dropWhile: "noDoubleSpace xs \<Longrightarrow> noDoubleSpace (dropWhile P xs)"
  by (induction xs) (auto dest: noDoubleSpace_tl)

lemma noDoubleSpace_cleaned: "noDoubleSpace (trim (collapseWhitespace s))"
  unfolding trim_def
  by (intro noDoubleSpace_rev noDoubleSpace_dropWhile noDoubleSpace_collapse)

lemma lastIndexOf_range: "-1 \<le> lastIndexOf s c \<and> lastIndexOf s c < int (length s)"
  by (induction s) (auto simp: Let_def)

lemma lastIndexOf_hit:
  "0 \<le> lastIndexOf s c \<Longrightarrow> s ! nat (lastIndexOf s c) = c"
proof (induction s)
  case (Cons x xs)
  then show ?case
    by (auto simp: Let_def nat_add_distrib split: if_splits)
qed simp

lemma lastIndexOf_last:
  "i < length s \<Longrightarrow> s ! i = c \<Longrightarrow> int i \<le> lastIndexOf s c"
proof (induction s arbitrary: i)
  case (Cons x xs)
  then show ?case
    by (cases i) (auto simp: Let_def, force+)
qed simp

lemma truncateBody_empty_cleaned: "trim (collapseWhitespace []) = []"
  by (simp add: trim_def)

text \<open>
  Claim C7. A body whose normalised form (whitespace runs collapsed, ends trimmed) has at
  most 300 characters is returned as that normalised form, with nothing appended. A longer
  one is returned as a prefix of the normalised form followed by the ellipsis \<open>...\<close>; and
  if one of the positions 241 to 299 of the normalised form holds a space, the prefix stops
  right before such a space, and its last character is not a space: the cut is between a
  word and the space after it.
\<close>

theorem truncateBody_preview:
  "(length (trim (collapseWhitespace b)) \<le> 300 \<longrightarrow>
      truncateBody b 300 = trim (collapseWhitespace b)) \<and>
   (300 < length (trim (collapseWhitespace b)) \<longrightarrow>
      (\<exists>content n. truncateBody b 300 = content @ ''...'' \<and> n \<le> 300 \<and>
         content = take n (trim (collapseWhitespace b)) \<and>
         ((\<exists>i. 240 < i \<and> i < 300 \<and> trim (collapseWhitespace b) ! i = CHR 0x20) \<longrightarrow>
            240 < n \<and> n < 300 \<and>
            trim (collapseWhitespace b) ! n = CHR 0x20 \<and>
            trim (collapseWhitespace b) ! (n - 1) \<noteq> CHR 0x20)))"
proof -
  define C where "C = trim (collapseWhitespace b)"
  define T where "T = take 300 C"
  define ls where "ls = lastIndexOf T (CHR 0x20)"
  have short: "length C \<le> 300 \<Longrightarrow> truncateBody b 300 = C"
    by (cases "b = []")
       (simp_all add: truncateBody_def C_def trim_def Let_def)
  have long: "\<exists>content n. truncateBody b 300 = content @ ''...'' \<and> n \<le> 300 \<and>
         content = take n C \<and>
         ((\<exists>i. 240 < i \<and> i < 300 \<and> C ! i = CHR 0x20) \<longrightarrow>
            240 < n \<and> n < 300 \<and> C ! n = CHR 0x20 \<and> C ! (n - 1) \<noteq> CHR 0x20)"
    if len: "300 < length C"
  proof -
    have nonempty: "b \<noteq> []"
      using len by (auto simp: C_def trim_def)
    have lenT: "length T = 300" using len by (simp add: T_def)
    have rng: "-1 \<le> ls" "ls < 300"
      using lastIndexOf_range[of T "CHR 0x20"] lenT by (simp_all add: ls_def)
    have unfold: "truncateBody b 300 =
        (if 5 * ls > 1200 then substring0 T ls @ ''...'' else T @ ''...'')"
      using nonempty len
      by (simp add: truncateBody_def Let_def C_def[symmetric] substring0_def
          T_def[symmetric] ls_def[symmetric])
    show ?thesis
    proof (cases "240 < ls")
      case True
      define n where "n = nat ls"
      have n: "240 < n" "n < 300" using True rng by (simp_all add: n_def)
      have "T ! n = CHR 0x20"
        using lastIndexOf_hit[of T "CHR 0x20"] True by (simp add: ls_def n_def)
      then have Cn: "C ! n = CHR 0x20" using n by (simp add: T_def)
      have "C ! (n - 1) \<noteq> CHR 0x20"
        using noDoubleSpace_nth[of C "n - 1"] noDoubleSpace_cleaned[of b] Cn n len
        by (simp add: C_def)
      moreover have "truncateBody b 300 = take n C @ ''...''"
        using unfold True n by (simp add: substring0_def n_def T_def min_def)
      ultimately show ?thesis using n Cn by (intro exI[of _ "take n C"] exI[of _ n]) simp
    next
      case False
      have "\<not> (\<exists>i. 240 < i \<and> i < 300 \<and> C ! i = CHR 0x20)"
      proof
        assume "\<exists>i. 240 < i \<and> i < 300 \<and> C ! i = CHR 0x20"
        then obtain i where i: "240 < i" "i < 300" "C ! i = CHR 0x20" by blast
        then have "T ! i = CHR 0x20" "i < length T" using lenT by (simp_all add: T_def)
        then have "int i \<le> ls" unfolding ls_def by (rule lastIndexOf_last[rotated])
        with i False show False by simp
      qed
      moreover have "truncateBody b 300 = take 300 C @ ''...''"
        using unfold False by (simp add: T_def)
      ultimately show ?thesis by (intro exI[of _ "take 300 C"] exI[of _ 300]) simp
    qed
  qed
  show ?thesis
    using short long unfolding C_def by blast
qed

lemma cleaned_long_example: "trim (collapseWhitespace (replicate 250 CHR ''a'' @ ''  '' @ replicate 100 CHR ''b''))
   = replicate 250 CHR ''a'' @ '' '' @ replicate 100 CHR ''b''"
  by code_simp

theorem truncateBody_preview_witness:
  "length (trim (collapseWhitespace '' Re:  hello ''))  \<le> 300 \<and>
   truncateBody '' Re:  hello '' 300 = ''Re: hello'' \<and>
   300 < length (trim (collapseWhitespace (replicate 250 CHR ''a'' @ ''  '' @ replicate 100 CHR ''b''))) \<and>
   (\<exists>i. 240 < i \<and> i < 300 \<and>
      trim (collapseWhitespace (replicate 250 CHR ''a'' @ ''  '' @ replicate 100 CHR ''b'')) ! i = CHR 0x20) \<and>
   (\<exists>content n. truncateBody (replicate 250 CHR ''a'' @ ''  '' @ replicate 100 CHR ''b'') 300 = content @ ''...'' \<and>
       240 < n \<and> n < 300 \<and> content = take n (replicate 250 CHR ''a'' @ '' '' @ replicate 100 CHR ''b''))"
proof -
  have c1: "trim (collapseWhitespace '' Re:  hello '') = ''Re: hello''"
    by code_simp
  have h1: "length (trim (collapseWhitespace '' Re:  hello ''))  \<le> 300"
    unfolding c1 by simp
  have h2: "300 < length (trim (collapseWhitespace (replicate 250 CHR ''a'' @ ''  '' @ replicate 100 CHR ''b'')))"
    unfolding cleaned_long_example by simp
  have "trim (collapseWhitespace (replicate 250 CHR ''a'' @ ''  '' @ replicate 100 CHR ''b'')) ! 250 = CHR 0x20"
    unfolding cleaned_long_example by (simp add: nth_append)
  then have h3: "\<exists>i. 240 < i \<and> i < 300 \<and>
      trim (collapseWhitespace (replicate 250 CHR ''a'' @ ''  '' @ replicate 100 CHR ''b'')) ! i = CHR 0x20"
    by (intro exI[of _ 250]) simp
  from truncateBody_preview[of "'' Re:  hello ''"] h1 c1
  have r1: "truncateBody '' Re:  hello '' 300 = ''Re: hello''" by metis
  from truncateBody_preview[of "replicate 250 CHR ''a'' @ ''  '' @ replicate 100 CHR ''b''"] h2 h3
  have r2: "\<exists>content n. truncateBody (replicate 250 CHR ''a'' @ ''  '' @ replicate 100 CHR ''b'') 300 = content @ ''...'' \<and>
       240 < n \<and> n < 300 \<and> content = take n (replicate 250 CHR ''a'' @ '' '' @ replicate 100 CHR ''b'')"
    unfolding cleaned_long_example by blast
  show ?thesis using h1 r1 h2 h3 r2 by blast
qed

section \<open>Properties of the statistics\<close>

lemma set_setAdd: "set (setAdd x xs) = insert x (set xs)"
  by (auto simp: setAdd_def)

lemma distinct_setAdd: "distinct xs \<Longrightarrow> distinct (setAdd x xs)"
  by (simp add: setAdd_def)

lemma fold_setAdd: "distinct acc \<Longrightarrow>
  distinct (fold setAdd xs acc) \<and> set (fold setAdd xs acc) = set xs \<union> set acc"
  by (induction xs arbitrary: acc) (auto simp: set_setAdd distinct_setAdd)

lemma length_newSet: "length (newSet xs) = card (set xs)"
  using fold_setAdd[of "[]" xs] distinct_card[of "newSet xs"]
  by (simp add: newSet_def)

lemma updateEmails_fields:
  "emails (updateEmails s es) = es" "statsCache (updateEmails s es) = None"
  by (simp_all add: updateEmails_def processContacts_def invalidateCache_def)

text \<open>
  Claim C1. After \<open>updateEmails S\<close>, \<open>getEmailStats\<close> (at any instant) reports the
  length of \<open>S\<close> as \<open>totalEmails\<close>, the number of messages of \<open>S\<close> not read as
  \<open>unreadEmails\<close>, the number of starred ones as \<open>starredEmails\<close>, and the number of
  distinct folders of \<open>S\<close> as \<open>totalFolders\<close>.
\<close>

theorem getEmailStats_after_updateEmails:
  "totalEmails (fst (getEmailStats (updateEmails s S) now)) = length S \<and>
   unreadEmails (fst (getEmailStats (updateEmails s S) now)) = length (filter (\<lambda>m. \<not> isRead m) S) \<and>
   starredEmails (fst (getEmailStats (updateEmails s S) now)) = length (filter isStarred S) \<and>
   totalFolders (fst (getEmailStats (updateEmails s S) now)) = card (folder ` set S)"
  by (simp add: getEmailStats_def updateEmails_fields computeStats_def length_newSet)

section \<open>Properties of the contact map\<close>

lemma fold_processRecipient:
  "fold (processRecipient d) ts cs = fold foldInteraction (map (\<lambda>t. (extractEmailAddress t, Sent, d)) ts) cs"
  by (induction ts arbitrary: cs) (simp_all add: processRecipient_def foldInteraction_def Let_def)

lemma processEmail_interactions:
  "processEmail e cs = fold foldInteraction ((extractEmailAddress (msg_from e), Received, date e)
                       # map (\<lambda>t. (extractEmailAddress t, Sent, date e)) (msg_to e)) cs"
  by (simp add: processEmail_def Let_def fold_processRecipient foldInteraction_def)

lemma fold_processEmail:
  "fold processEmail S cs = fold foldInteraction (interactionsOf S) cs"
proof (induction S arbitrary: cs)
  case Nil
  show ?case by (simp add: interactionsOf_def)
next
  case (Cons e S)
  have "interactionsOf (e # S) = ((extractEmailAddress (msg_from e), Received, date e)
                       # map (\<lambda>t. (extractEmailAddress t, Sent, date e)) (msg_to e)) @ interactionsOf S"
    by (simp add: interactionsOf_def)
  then show ?case
    using Cons.IH by (simp only: fold.simps fold_append o_apply processEmail_interactions)
qed

lemma map_of_updateContact:
  "map_of (updateContact cs a k d) = (map_of cs)(a \<mapsto>
     (let c0 = (case map_of cs a of
                  None \<Rightarrow> \<lparr>email = a, emailsSent = 0, emailsReceived = 0,
                            lastInteraction = d, firstInteraction = d\<rparr>
                | Some c \<Rightarrow> c);
          c1 = (if k = Sent then c0\<lparr>emailsSent := emailsSent c0 + 1\<rparr>
                else c0\<lparr>emailsReceived := emailsReceived c0 + 1\<rparr>);
          c2 = (if d > lastInteraction c1 then c1\<lparr>lastInteraction := d\<rparr> else c1)
      in (if d < firstInteraction c2 then c2\<lparr>firstInteraction := d\<rparr> else c2)))"
  by (simp add: updateContact_def Let_def update_conv')

lemma distinct_updateContact:
  "distinct (map fst cs) \<Longrightarrow> distinct (map fst (updateContact cs a k d))"
  by (simp add: updateContact_def Let_def distinct_update)

lemma distinct_foldInteraction:
  "distinct (map fst cs) \<Longrightarrow> distinct (map fst (fold foldInteraction I cs))"
  by (induction I arbitrary: cs)
     (auto simp: foldInteraction_def distinct_updateContact split: prod.splits)

lemma contactSummary_snoc_other:
  "fst x \<noteq> a \<Longrightarrow> contactSummary (I @ [x]) a = contactSummary I a"
  by (simp add: contactSummary_def)

lemma contactSummary_snoc_same:
  assumes "a \<noteq> []"
  shows "contactSummary (I @ [(a, k, d)]) a =
     Some (case contactSummary I a of
        None \<Rightarrow> \<lparr>email = a, emailsSent = (if k = Sent then 1 else 0),
                  emailsReceived = (if k = Sent then 0 else 1),
                  lastInteraction = d, firstInteraction = d\<rparr>
      | Some c \<Rightarrow> \<lparr>email = a, emailsSent = (if k = Sent then emailsSent c + 1 else emailsSent c),
                  emailsReceived = (if k = Sent then emailsReceived c else emailsReceived c + 1),
                  lastInteraction = max d (lastInteraction c),
                  firstInteraction = min d (firstInteraction c)\<rparr>)"
proof -
  define J where "J = filter (\<lambda>x. fst x = a) I"
  have J': "filter (\<lambda>x. fst x = a) (I @ [(a, k, d)]) = J @ [(a, k, d)]"
    by (simp add: J_def)
  show ?thesis
  proof (cases "J = []")
    case True
    then show ?thesis
      using assms unfolding contactSummary_def J' J_def[symmetric] Let_def
      by (cases k) simp_all
  next
    case False
    then have ne: "set (map (\<lambda>x. snd (snd x)) J) \<noteq> {}" by simp
    have "Max (set (map (\<lambda>x. snd (snd x)) (J @ [(a, k, d)]))) = max d (Max (set (map (\<lambda>x. snd (snd x)) J)))"
         "Min (set (map (\<lambda>x. snd (snd x)) (J @ [(a, k, d)]))) = min d (Min (set (map (\<lambda>x. snd (snd x)) J)))"
      using ne by (simp_all del: set_map)
    then show ?thesis
      using assms False unfolding contactSummary_def J' J_def[symmetric] Let_def
      by (cases k) simp_all
  qed
qed

lemma Min_le_Max_list:
  fixes xs :: "int list"
  assumes "xs \<noteq> []"
  shows "Min (set xs) \<le> Max (set xs)"
proof -
  from assms have "hd xs \<in> set xs" by simp
  then have "Min (set xs) \<le> hd xs" "hd xs \<le> Max (set xs)" by simp_all
  then show ?thesis by (rule order_trans)
qed

lemma contactSummary_Some:
  "contactSummary I a = Some c \<Longrightarrow> email c = a \<and> firstInteraction c \<le> lastInteraction c"
proof -
  assume h: "contactSummary I a = Some c"
  let ?J = "filter (\<lambda>x. fst x = a) I"
  from h have ne: "?J \<noteq> []" by (auto simp: contactSummary_def Let_def split: if_splits)
  then have "Min (set (map (\<lambda>x. snd (snd x)) ?J)) \<le> Max (set (map (\<lambda>x. snd (snd x)) ?J))"
    by (intro Min_le_Max_list) simp
  with h ne show ?thesis by (auto simp: contactSummary_def Let_def split: if_splits)
qed

lemma map_of_fold_interactions:
  "map_of (fold foldInteraction I []) a = contactSummary I a"
proof (induction I arbitrary: a rule: rev_induct)
  case Nil
  show ?case by (simp add: contactSummary_def)
next
  case (snoc x I)
  obtain b k d where x: "x = (b, k, d)" by (cases x)
  show ?case
  proof (cases "b = []")
    case True
    then have "contactSummary (I @ [x]) a = contactSummary I a"
      by (cases "a = []") (simp_all add: contactSummary_def x)
    then show ?thesis using snoc True by (simp add: x foldInteraction_def)
  next
    case False
    show ?thesis
    proof (cases "a = b")
      case True
      show ?thesis
      proof (cases "contactSummary I b")
        case None
        then show ?thesis
          using False snoc[of b] unfolding x True
          by (auto simp: foldInteraction_def map_of_updateContact contactSummary_snoc_same Let_def)
      next
        case (Some c)
        then show ?thesis
          using False snoc[of b] contactSummary_Some[OF Some] unfolding x True
          by (auto simp: foldInteraction_def map_of_updateContact contactSummary_snoc_same Let_def
              max_def min_def intro!: contact.equality)
      qed
    next
      case False
      then show ?thesis using snoc \<open>b \<noteq> []\<close>
        by (simp add: x foldInteraction_def map_of_updateContact contactSummary_snoc_other)
    qed
  qed
qed

lemma dom_contactSummary:
  "{a. contactSummary I a \<noteq> None} = {a \<in> fst ` set I. a \<noteq> []}"
  by (auto simp: contactSummary_def Let_def filter_empty_conv image_iff)

lemma contacts_updateEmails:
  "contacts (updateEmails s S) = fold foldInteraction (interactionsOf S) []"
  by (simp add: updateEmails_def processContacts_def invalidateCache_def fold_processEmail)

text \<open>
  Claim C6, as amended. After \<open>updateEmails S\<close> the contact map has one entry for each
  distinct non-empty bare address that occurs as a sender or a recipient in \<open>S\<close>, and none
  for the empty address; the entry of an address counts its occurrences as a sender in
  \<open>emailsReceived\<close> and as a recipient in \<open>emailsSent\<close>, and its \<open>firstInteraction\<close> and
  \<open>lastInteraction\<close> are the smallest and largest date among its interactions.
\<close>

theorem updateEmails_contacts:
  "distinct (map fst (contacts (updateEmails s S))) \<and>
   set (map fst (contacts (updateEmails s S))) = {a \<in> fst ` set (interactionsOf S). a \<noteq> []} \<and>
   map_of (contacts (updateEmails s S)) a = contactSummary (interactionsOf S) a"
proof -
  let ?cs = "contacts (updateEmails s S)"
  have m: "map_of ?cs x = contactSummary (interactionsOf S) x" for x
    by (simp add: contacts_updateEmails map_of_fold_interactions)
  have "set (map fst ?cs) = dom (map_of ?cs)"
    by (simp add: dom_map_of_conv_image_fst)
  also have "\<dots> = {a. contactSummary (interactionsOf S) a \<noteq> None}"
    by (auto simp: m dom_def)
  finally have "set (map fst ?cs) = {a \<in> fst ` set (interactionsOf S). a \<noteq> []}"
    by (simp only: dom_contactSummary)
  moreover have "distinct (map fst ?cs)"
    by (simp add: contacts_updateEmails distinct_foldInteraction)
  ultimately show ?thesis using m by blast
qed

text \<open>
  The claim as stated, one entry for every bare address that occurs, fails for a message
  without sender: its bare address is the empty string, which the loop skips.
\<close>

theorem updateEmails_contacts_counterexample:
  "set (map fst (contacts (updateEmails
      \<lparr>emails = [], contacts = [], statsCache = None, analyticsCache = None, lastCacheUpdate = None\<rparr>
      [\<lparr>msg_id = ''7'', msg_from = [], msg_to = [''bob@example.com''], cc = [],
        subject = ''(No Subject)'', body = ''hi'', bodyPreview = ''hi'', isHtml = False,
        date = 1700000000000, folder = ''INBOX'', isRead = False, isStarred = False,
        hasAttachment = False, attachments = None\<rparr>])))
   \<noteq> fst ` set (interactionsOf
      [\<lparr>msg_id = ''7'', msg_from = [], msg_to = [''bob@example.com''], cc = [],
        subject = ''(No Subject)'', body = ''hi'', bodyPreview = ''hi'', isHtml = False,
        date = 1700000000000, folder = ''INBOX'', isRead = False, isStarred = False,
        hasAttachment = False, attachments = None\<rparr>])"
proof -
  have e: "extractEmailAddress [] = []"
    by (simp add: extractEmailAddress_def trim_def)
  have b: "extractEmailAddress ''bob@example.com'' = ''bob@example.com''"
    by code_simp
  show ?thesis
    unfolding updateEmails_def processContacts_def invalidateCache_def interactionsOf_def
    by (simp add: processEmail_def processRecipient_def e b updateContact_def Let_def)
qed


section \<open>Protected folders\<close>

lemma toLowerCase_eq_iff: "toLowerCase a = toLowerCase b \<longleftrightarrow> equalIgnoringCase a b"
  unfolding toLowerCase_def equalIgnoringCase_def
  by (induction a arbitrary: b) (auto simp: list_all2_Cons1)

lemma toLowerCase_INBOX: "toLowerCase ''INBOX'' = toLowerCase ''Inbox''"
  by code_simp

lemma isProtected_iff: "isProtected n \<longleftrightarrow> isSystemFolder n"
  unfolding isProtected_def isSystemFolder_def protectedFolders_def systemFolders_def
  by (simp add: toLowerCase_eq_iff[symmetric] toLowerCase_INBOX)

text \<open>
  Claim C5, as amended. Let the name \<open>n\<close> equal one of Inbox, Sent, Drafts, Trash, Spam,
  Archive, All Mail up to case. On a connected service \<open>deleteFolder n\<close> and
  \<open>renameFolder n m\<close> throw the protected-folder error and leave the service as it was, the
  trace of provider calls included. On a service that is not connected they throw the
  not-connected error instead, again with no provider call. \<open>createFolder\<close> on a connected
  service issues \<^verbatim>\<open>mailboxCreate\<close> for every name, a protected one too.
\<close>

theorem folder_protection:
  "(isSystemFolder n \<and> isConnected s \<and> client s \<longrightarrow>
      deleteFolder P s n = (Inl (CannotDeleteProtected n), s) \<and>
      renameFolder P s n m = (Inl (CannotRenameProtected n), s)) \<and>
   (isSystemFolder n \<and> \<not> (isConnected s \<and> client s) \<longrightarrow>
      deleteFolder P s n = (Inl NotConnected, s) \<and>
      renameFolder P s n m = (Inl NotConnected, s)) \<and>
   (isConnected s \<and> client s \<longrightarrow>
      calls (snd (createFolder P s n)) = calls s @ [MailboxCreate n])"
  by (auto simp: deleteFolder_def renameFolder_def createFolder_def isProtected_iff issue_def
      split: option.splits prod.splits)

theorem folder_protection_witness:
  "isSystemFolder ''inbox'' \<and> isConnected connectedService \<and> client connectedService \<and>
   deleteFolder (healthyProvider []) connectedService ''inbox''
     = (Inl (CannotDeleteProtected ''inbox''), connectedService) \<and>
   renameFolder (healthyProvider []) connectedService ''inbox'' ''Old''
     = (Inl (CannotRenameProtected ''inbox''), connectedService) \<and>
   \<not> (isConnected disconnectedService \<and> client disconnectedService) \<and>
   deleteFolder (healthyProvider []) disconnectedService ''inbox''
     = (Inl NotConnected, disconnectedService) \<and>
   renameFolder (healthyProvider []) disconnectedService ''inbox'' ''Old''
     = (Inl NotConnected, disconnectedService) \<and>
   calls (snd (createFolder (healthyProvider []) connectedService ''inbox''))
     = calls connectedService @ [MailboxCreate ''inbox'']"
proof -
  have sys: "isSystemFolder ''inbox''"
    by code_simp
  have con: "isConnected connectedService \<and> client connectedService"
    by (simp add: connectedService_def)
  have dis: "\<not> (isConnected disconnectedService \<and> client disconnectedService)"
    by (simp add: disconnectedService_def)
  show ?thesis
    using sys con dis
      folder_protection[of "''inbox''" connectedService "healthyProvider []" "''Old''"]
      folder_protection[of "''inbox''" disconnectedService "healthyProvider []" "''Old''"]
    by blast
qed

text \<open>
  The claim as stated, a protected-folder error for every such name, fails on a service
  that is not connected: the connection guard comes first.
\<close>

theorem folder_protection_counterexample:
  "fst (deleteFolder (healthyProvider []) disconnectedService ''inbox'')
     \<noteq> Inl (CannotDeleteProtected ''inbox'')"
  by (simp add: deleteFolder_def disconnectedService_def)

section \<open>Lookups\<close>

lemma issue_snd: "snd (issue P c s) = s\<lparr>calls := calls s @ [c]\<rparr>"
  by (simp add: issue_def)

lemma issue_fst: "fst (issue P c s) = Some e \<Longrightarrow> thrownByProvider e"
  by (auto simp: issue_def split: option.splits)

lemma issue_cases:
  obtains (ok) "issue P c s = (None, s\<lparr>calls := calls s @ [c]\<rparr>)" "failure P c = None"
  | (thrown) m r where "issue P c s = (Some (ProviderError m r), s\<lparr>calls := calls s @ [c]\<rparr>)"
      "failure P c = Some (m, r)"
  by (cases "failure P c") (auto simp: issue_def)

lemma extends_refl: "extends s s"
  by (simp add: extends_def)

lemma extends_trans: "extends s s' \<Longrightarrow> extends s' s'' \<Longrightarrow> extends s s''"
  by (auto simp: extends_def)

lemma extends_calls: "extends s (s\<lparr>calls := calls s @ cs\<rparr>)"
  by (simp add: extends_def)

lemma extends_release: "extends s (release f s)"
  by (simp add: extends_def release_def)

lemma extends_emailCache: "extends s (s\<lparr>emailCache := c\<rparr>)"
  by (simp add: extends_def)

lemma extends_folderCache: "extends s (s\<lparr>folderCache := c\<rparr>)"
  by (simp add: extends_def)

lemma statusLoop_props:
  "statusLoop P fs res s = (r, s') \<Longrightarrow>
     extends s s' \<and> emailCache s' = emailCache s \<and> (\<forall>e. r = Inl e \<longrightarrow> thrownByProvider e)"
proof (induction fs arbitrary: res s)
  case Nil
  then show ?case by (auto simp: extends_refl)
next
  case (Cons f fs)
  show ?case
  proof (cases rule: issue_cases[of P "Status (rf_path f)" s])
    case ok
    from Cons.prems obtain res' fc where
      "statusLoop P fs res' (s\<lparr>calls := calls s @ [Status (rf_path f)], folderCache := fc\<rparr>) = (r, s')"
      by (simp add: ok)
    from Cons.IH[OF this] show ?thesis
      by (auto simp: extends_def dest: append_prefixD)
  next
    case (thrown m r)
    with Cons.prems show ?thesis by (auto simp: extends_def)
  qed
qed


lemma getFolders_props:
  assumes "client s" "isConnected s" "getFolders P s = (r, s')"
  shows "extends s s' \<and> emailCache s' = emailCache s \<and> (\<forall>e. r = Inl e \<longrightarrow> thrownByProvider e)"
proof (cases rule: issue_cases[of P ListFolders s])
  case ok
  with assms have "statusLoop P (remoteFolders P) [] (s\<lparr>calls := calls s @ [ListFolders]\<rparr>) = (r, s')"
    by (simp add: getFolders_def ensureConnection_def)
  from statusLoop_props[OF this] show ?thesis
    by (auto simp: extends_def dest: append_prefixD)
next
  case (thrown m x)
  with assms show ?thesis
    by (auto simp: getFolders_def ensureConnection_def extends_def)
qed

lemma fetchLoopById_id:
  "fetchLoopById now p ms = Some (Inr em) \<Longrightarrow> \<forall>m \<in> set ms. rm_uid m = i \<Longrightarrow> msg_id em = i"
  by (induction ms) (auto simp: toEmailMessage_def Let_def split: message_source.splits)

lemma fetchLoopById_error:
  "fetchLoopById now p ms = Some (Inl e) \<Longrightarrow> thrownByProvider e"
  by (induction ms) (auto split: message_source.splits)

lemma fetchByUid_uid: "\<forall>m \<in> set (fetchByUid P p i). rm_uid m = i"
  by (auto simp: fetchByUid_def split: option.splits)

lemma searchFolders_props:
  "searchFolders P now i fs s = (r, s') \<Longrightarrow>
     extends s s' \<and> (\<forall>e. r = Inl e \<longrightarrow> thrownByProvider e) \<and>
     (case r of Inr (Some em) \<Rightarrow> msg_id em = i \<and> emailCache s' = AList.update i em (emailCache s)
              | _ \<Rightarrow> emailCache s' = emailCache s)"
proof (induction fs arbitrary: s)
  case Nil
  then show ?case by (auto simp: extends_refl)
next
  case (Cons f fs)
  let ?p = "folder_path f"
  show ?case
  proof (cases rule: issue_cases[of P "GetMailboxLock ?p" s])
    case (thrown m x)
    with Cons.prems show ?thesis by (auto simp: extends_def)
  next
    case ok
    define s1 where "s1 = s\<lparr>calls := calls s @ [GetMailboxLock ?p]\<rparr>"
    have e1: "extends s s1" "emailCache s1 = emailCache s"
      by (simp_all add: s1_def extends_def)
    show ?thesis
    proof (cases rule: issue_cases[of P "FetchUid i" s1])
      case (thrown m x)
      with Cons.prems ok show ?thesis
        by (auto simp: extends_def s1_def release_def)
    next
      case ok2: ok
      define s2 where "s2 = s1\<lparr>calls := calls s1 @ [FetchUid i]\<rparr>"
      have e2: "extends s s2" "emailCache s2 = emailCache s"
        by (simp_all add: s2_def s1_def extends_def)
      show ?thesis
      proof (cases "fetchLoopById now ?p (fetchByUid P ?p i)")
        case None
        with Cons.prems ok ok2 have "searchFolders P now i fs (release ?p s2) = (r, s')"
          by (simp add: s1_def s2_def)
        from Cons.IH[OF this] e2 show ?thesis
          by (auto simp: extends_def release_def dest: append_prefixD split: sum.splits option.splits)
      next
        case (Some out)
        show ?thesis
        proof (cases out)
          case (Inl e)
          with Some Cons.prems ok ok2 fetchLoopById_error[of now ?p _ e] show ?thesis
            by (auto simp: extends_def s1_def release_def)
        next
          case (Inr em)
          with Some have "msg_id em = i"
            using fetchLoopById_id[of now ?p _ em i] fetchByUid_uid by blast
          with Some Inr Cons.prems ok ok2 show ?thesis
            by (auto simp: extends_def s1_def release_def)
        qed
      qed
    qed
  qed
qed

lemma getEmailById_props:
  assumes "client s" "isConnected s" "getEmailById P now s i = (r, s')"
  shows "extends s s' \<and> (\<forall>e. r = Inl e \<longrightarrow> thrownByProvider e) \<and>
     (case r of Inr (Some em) \<Rightarrow> map_of (emailCache s') i = Some em
                  \<and> (emailCache s' = emailCache s \<or>
                      (map_of (emailCache s) i = None \<and> emailCache s' = AList.update i em (emailCache s)))
              | _ \<Rightarrow> emailCache s' = emailCache s)"
proof (cases "map_of (emailCache s) i")
  case (Some em)
  with assms show ?thesis by (auto simp: getEmailById_def extends_refl)
next
  case None
  obtain rf s1 where gf: "getFolders P s = (rf, s1)" by (cases "getFolders P s")
  note g = getFolders_props[OF assms(1,2) gf]
  show ?thesis
  proof (cases rf)
    case (Inl e)
    with assms None gf g show ?thesis by (auto simp: getEmailById_def)
  next
    case (Inr folders)
    with assms None gf have "searchFolders P now i folders s1 = (r, s')"
      by (simp add: getEmailById_def)
    from searchFolders_props[OF this] g None show ?thesis
      by (auto simp: extends_def update_conv' split: sum.splits option.splits)
  qed
qed

section \<open>Single-message mutations\<close>




lemma updateCached_calls: "calls (updateCached i f x) = calls x"
  by (simp add: updateCached_def split: option.splits)








section \<open>Pages of a folder\<close>


text \<open>
  On a connected service whose lock and fetch succeed, \<open>getEmails\<close> of a folder that holds
  \<open>T\<close> messages returns the empty list without a fetch when \<open>T = 0\<close>, and otherwise
  fetches the range from \<open>max 1 (T - off - lim + 1)\<close> to \<open>max 1 (T - off)\<close>, for the limit \<open>lim\<close> and the offset \<open>off\<close>, and returns the
  messages it lists, the last one first.
\<close>

lemma getEmails_range:
  assumes "client s" "isConnected s"
    and "failure P (GetMailboxLock f) = None"
    and "\<And>a b. failure P (FetchRange a b) = None"
    and "1 \<le> lim"
  shows "getEmails P now s f lim off =
     (if mailboxExists P f = 0
      then (Inr [], release f (s\<lparr>calls := calls s @ [GetMailboxLock f]\<rparr>))
      else (Inr (rev (fst (fetchLoop now f
                (fetchRange P f (max 1 (mailboxExists P f - off - lim + 1)) (max 1 (mailboxExists P f - off)))
                [] (s\<lparr>calls := calls s @ [GetMailboxLock f,
                      FetchRange (max 1 (mailboxExists P f - off - lim + 1)) (max 1 (mailboxExists P f - off))]\<rparr>)))),
            release f (snd (fetchLoop now f
                (fetchRange P f (max 1 (mailboxExists P f - off - lim + 1)) (max 1 (mailboxExists P f - off)))
                [] (s\<lparr>calls := calls s @ [GetMailboxLock f,
                      FetchRange (max 1 (mailboxExists P f - off - lim + 1)) (max 1 (mailboxExists P f - off))]\<rparr>)))))"
  using assms
  by (auto simp: getEmails_def ensureConnection_def issue_def Let_def split: prod.splits)


lemma fetchLoop_calls: "calls (snd (fetchLoop now f ms acc s)) = calls s"
  by (induction ms arbitrary: acc s) (auto split: message_source.splits)

text \<open>
  Past the end of a folder that is not empty the range is never empty: it is the first
  message alone.
\<close>

lemma getEmails_past_end_range:
  assumes "client s" "isConnected s"
    and "failure P (GetMailboxLock f) = None"
    and "\<And>a b. failure P (FetchRange a b) = None"
    and "1 \<le> lim" "0 < mailboxExists P f" "mailboxExists P f \<le> off"
  shows "calls (snd (getEmails P now s f lim off))
     = calls s @ [GetMailboxLock f, FetchRange 1 1, LockRelease f]"
proof -
  have "max 1 (mailboxExists P f - off - lim + 1) = 1" "max 1 (mailboxExists P f - off) = 1"
    using assms(5-7) by simp_all
  then show ?thesis
    using assms(6) by (simp add: getEmails_range[OF assms(1-5)] fetchLoop_calls release_def)
qed

text \<open>
  Claim C3 at a folder of three messages, limit 2 and offset 5: the call does not return
  the empty list. It fetches the range from 1 to 1 and returns the oldest message.
\<close>

theorem getEmails_offset_past_end:
  "fst (getEmails threeMessages 0 connectedService ''INBOX'' 2 5) \<noteq> Inr [] \<and>
   map_sum id (map msg_id) (fst (getEmails threeMessages 0 connectedService ''INBOX'' 2 5)) = Inr [''11''] \<and>
   calls (snd (getEmails threeMessages 0 connectedService ''INBOX'' 2 5))
     = [Connect, GetMailboxLock ''INBOX'', FetchRange 1 1, LockRelease ''INBOX''] \<and>
   map_sum id (map msg_id) (fst (getEmails threeMessages 0 connectedService ''INBOX'' 2 0))
     = Inr [''13'', ''12'']"
  by code_simp

section \<open>Bulk move\<close>

lemma issue_fst_indep: "fst (issue P c s) = fst (issue P c s2)"
  by (simp add: issue_def)

lemma statusLoop_fst: "fst (statusLoop P fs res s) = fst (statusLoop P fs res s2)"
proof (induction fs arbitrary: res s s2)
  case Nil
  show ?case by simp
next
  case (Cons f fs)
  show ?case
  proof (cases "failure P (Status (rf_path f))")
    case None
    then show ?thesis using Cons.IH by (simp add: issue_def)
  next
    case (Some a)
    then show ?thesis by (cases a) (simp add: issue_def)
  qed
qed

lemma getFolders_fst:
  assumes "client s" "isConnected s" "client s2" "isConnected s2"
  shows "fst (getFolders P s) = fst (getFolders P s2)"
proof (cases "failure P ListFolders")
  case None
  then show ?thesis
    using assms statusLoop_fst[of P "remoteFolders P" "[]"]
    by (simp add: getFolders_def ensureConnection_def issue_def)
next
  case (Some a)
  then show ?thesis
    using assms by (cases a) (simp add: getFolders_def ensureConnection_def issue_def)
qed

lemma searchFolders_fst:
  "fst (searchFolders P now i fs s) = fst (searchFolders P now i fs s2)"
proof (induction fs arbitrary: s s2)
  case Nil
  show ?case by simp
next
  case (Cons f fs)
  show ?case
  proof (cases "failure P (GetMailboxLock (folder_path f))")
    case (Some a)
    then show ?thesis by (cases a) (simp add: issue_def)
  next
    case None
    note lock = None
    show ?thesis
    proof (cases "failure P (FetchUid i)")
      case (Some a)
      then show ?thesis using lock by (cases a) (simp add: issue_def)
    next
      case None
      show ?thesis
      proof (cases "fetchLoopById now (folder_path f) (fetchByUid P (folder_path f) i)")
        case None
        then show ?thesis
          using lock \<open>failure P (FetchUid i) = None\<close> Cons.IH by (simp add: issue_def)
      next
        case (Some out)
        then show ?thesis
          using lock \<open>failure P (FetchUid i) = None\<close>
          by (cases out) (simp_all add: issue_def)
      qed
    qed
  qed
qed

lemma getEmailById_fst:
  assumes "client s" "isConnected s" "client s2" "isConnected s2"
    and "map_of (emailCache s) i = None" "map_of (emailCache s2) i = None"
  shows "fst (getEmailById P now s i) = fst (getEmailById P now s2 i)"
proof -
  obtain r1 t1 where g1: "getFolders P s = (r1, t1)" by (cases "getFolders P s")
  obtain r2 t2 where g2: "getFolders P s2 = (r2, t2)" by (cases "getFolders P s2")
  have "r1 = r2" using getFolders_fst[OF assms(1-4), of P] g1 g2 by simp
  then show ?thesis
    using assms g1 g2 searchFolders_fst[of P now i _ t1 t2]
    by (cases r2) (simp_all add: getEmailById_def)
qed

lemma agrees_refl: "client s \<Longrightarrow> isConnected s \<Longrightarrow> agrees P now s s"
  by (simp add: agrees_def)

lemma agrees_None:
  assumes "agrees P now s sk" "map_of (emailCache sk) i = None"
  shows "map_of (emailCache s) i = None"
proof -
  from assms(1) have "map_of (emailCache sk) i = map_of (emailCache s) i \<or>
          (map_of (emailCache s) i = None \<and>
           (\<exists>em. map_of (emailCache sk) i = Some em \<and> fst (getEmailById P now s i) = Inr (Some em)))"
    unfolding agrees_def by blast
  with assms(2) show ?thesis by auto
qed

lemma agrees_lookup:
  assumes con: "client s" "isConnected s" and ag: "agrees P now s sk"
  shows "fst (getEmailById P now sk i) = fst (getEmailById P now s i)"
proof (cases "map_of (emailCache sk) i")
  case None
  with ag have "map_of (emailCache s) i = None" by (rule agrees_None)
  with None con ag show ?thesis
    by (intro getEmailById_fst) (auto simp: agrees_def)
next
  case (Some em)
  then have l: "fst (getEmailById P now sk i) = Inr (Some em)"
    by (simp add: getEmailById_def)
  from ag Some have "map_of (emailCache s) i = Some em \<or> fst (getEmailById P now s i) = Inr (Some em)"
    unfolding agrees_def by (metis option.inject)
  then have "fst (getEmailById P now s i) = Inr (Some em)"
  proof
    assume "map_of (emailCache s) i = Some em"
    then show ?thesis by (simp add: getEmailById_def)
  qed
  with l show ?thesis by simp
qed

lemma agrees_step:
  assumes con: "client s" "isConnected s" and ag: "agrees P now s sk"
    and step: "getEmailById P now sk i = (r, sk')"
  shows "agrees P now s sk' \<and> set (calls sk) \<subseteq> set (calls sk') \<and>
         (\<forall>j. map_of (emailCache sk) j \<noteq> None \<longrightarrow> map_of (emailCache sk') j \<noteq> None) \<and>
         (\<forall>em. r = Inr (Some em) \<longrightarrow> map_of (emailCache sk') i = Some em)"
proof -
  from ag have ck: "client sk" "isConnected sk" by (simp_all add: agrees_def)
  note p = getEmailById_props[OF ck step]
  have r: "r = fst (getEmailById P now s i)"
    using agrees_lookup[OF con ag, of i] step by simp
  from p have ext: "client sk'" "isConnected sk'" "set (calls sk) \<subseteq> set (calls sk')"
    using ck by (auto simp: extends_def dest: set_mono_prefix)
  show ?thesis
  proof (cases "emailCache sk' = emailCache sk")
    case True
    with ag ext p show ?thesis
      by (auto simp: agrees_def split: sum.splits option.splits)
  next
    case False
    with p obtain em where em: "r = Inr (Some em)" "map_of (emailCache sk) i = None"
      "emailCache sk' = AList.update i em (emailCache sk)"
      by (auto split: sum.splits option.splits)
    from ag em(2) have "map_of (emailCache s) i = None" by (rule agrees_None)
    with ag em r ext show ?thesis
      unfolding agrees_def by (auto simp: update_conv')
  qed
qed


lemma addToFolder_length:
  "length (concat (map snd (addToFolder f i bf))) = Suc (length (concat (map snd bf)))"
  unfolding addToFolder_def
  by (induction bf) (auto split: option.splits)

lemma addToFolder_set:
  "set (concat (map snd (addToFolder f i bf))) = insert i (set (concat (map snd bf)))"
  unfolding addToFolder_def
  by (induction bf) (auto split: option.splits)

lemma addToFolder_keys: "fst ` set (addToFolder f i bf) = insert f (fst ` set bf)"
  by (simp add: addToFolder_def dom_update)

lemma names_not_found: "names (''Email '' @ i @ '' not found'') i"
  unfolding names_def by blast

lemma names_fetch_error: "names (''Error fetching email '' @ i @ '': '' @ m) i"
  unfolding names_def by blast

lemma lookupLoop_props:
  assumes con: "client s" "isConnected s"
  shows "agrees P now s sk \<Longrightarrow> lookupLoop P now ids res bf sk = (res', bf', sk') \<Longrightarrow>
     agrees P now s sk' \<and>
     success res' = success res \<and>
     failed res' = failed res + length (filter (\<lambda>i. \<not> resolves P now s i) ids) \<and>
     (\<exists>msgs. errors res' = errors res @ msgs \<and>
        list_all2 names msgs (filter (\<lambda>i. \<not> resolves P now s i) ids)) \<and>
     length (concat (map snd bf')) = length (concat (map snd bf)) + length (filter (resolves P now s) ids) \<and>
     set (concat (map snd bf')) = set (concat (map snd bf)) \<union> set (filter (resolves P now s) ids) \<and>
     fst ` set bf' \<subseteq> fst ` set bf \<union>
        {f. \<exists>i \<in> set ids. \<exists>em. fst (getEmailById P now s i) = Inr (Some em) \<and> folder em = f} \<and>
     set (calls sk) \<subseteq> set (calls sk') \<and>
     (\<forall>j. map_of (emailCache sk) j \<noteq> None \<longrightarrow> map_of (emailCache sk') j \<noteq> None) \<and>
     (\<forall>i \<in> set ids. resolves P now s i \<longrightarrow> map_of (emailCache sk') i \<noteq> None)"
proof (induction ids arbitrary: res bf sk)
  case Nil
  then show ?case by simp
next
  case (Cons i ids)
  obtain r sk1 where g: "getEmailById P now sk i = (r, sk1)" by (cases "getEmailById P now sk i")
  note st = agrees_step[OF con Cons.prems(1) g]
  have r: "fst (getEmailById P now s i) = r"
    using agrees_lookup[OF con Cons.prems(1), of i] g by simp
  show ?case
  proof (cases r)
    case (Inl e)
    then have nr: "\<not> resolves P now s i" using r by (simp add: resolves_def)
    define res1 where "res1 = res\<lparr>failed := failed res + 1,
        errors := errors res @ [''Error fetching email '' @ i @ '': '' @ errorMessage e]\<rparr>"
    from Cons.prems(2) g Inl have run: "lookupLoop P now ids res1 bf sk1 = (res', bf', sk')"
      by (simp add: res1_def)
    from Cons.IH[OF _ run] st obtain msgs where
      ih: "agrees P now s sk'" "success res' = success res1"
        "failed res' = failed res1 + length (filter (\<lambda>i. \<not> resolves P now s i) ids)"
        "errors res' = errors res1 @ msgs"
        "list_all2 names msgs (filter (\<lambda>i. \<not> resolves P now s i) ids)"
        "length (concat (map snd bf')) = length (concat (map snd bf)) + length (filter (resolves P now s) ids)"
        "set (concat (map snd bf')) = set (concat (map snd bf)) \<union> set (filter (resolves P now s) ids)"
        "fst ` set bf' \<subseteq> fst ` set bf \<union>
          {f. \<exists>i \<in> set ids. \<exists>em. fst (getEmailById P now s i) = Inr (Some em) \<and> folder em = f}"
        "set (calls sk1) \<subseteq> set (calls sk')"
        "\<forall>j. map_of (emailCache sk1) j \<noteq> None \<longrightarrow> map_of (emailCache sk') j \<noteq> None"
        "\<forall>i \<in> set ids. resolves P now s i \<longrightarrow> map_of (emailCache sk') i \<noteq> None"
      by blast
    have e: "errors res' = errors res @ ((''Error fetching email '' @ i @ '': '' @ errorMessage e) # msgs)"
      using ih(4) by (simp add: res1_def)
    have l: "list_all2 names ((''Error fetching email '' @ i @ '': '' @ errorMessage e) # msgs)
        (filter (\<lambda>i. \<not> resolves P now s i) (i # ids))"
      using ih(5) nr names_fetch_error by simp
    from ih st nr e l show ?thesis
      by (auto simp: res1_def)
  next
    case (Inr found)
    show ?thesis
    proof (cases found)
      case None
      then have nr: "\<not> resolves P now s i" using r Inr by (simp add: resolves_def)
      define res1 where "res1 = res\<lparr>failed := failed res + 1,
          errors := errors res @ [''Email '' @ i @ '' not found'']\<rparr>"
      from Cons.prems(2) g Inr None have run: "lookupLoop P now ids res1 bf sk1 = (res', bf', sk')"
        by (simp add: res1_def)
      from Cons.IH[OF _ run] st obtain msgs where
        ih: "agrees P now s sk'" "success res' = success res1"
          "failed res' = failed res1 + length (filter (\<lambda>i. \<not> resolves P now s i) ids)"
          "errors res' = errors res1 @ msgs"
          "list_all2 names msgs (filter (\<lambda>i. \<not> resolves P now s i) ids)"
          "length (concat (map snd bf')) = length (concat (map snd bf)) + length (filter (resolves P now s) ids)"
          "set (concat (map snd bf')) = set (concat (map snd bf)) \<union> set (filter (resolves P now s) ids)"
          "fst ` set bf' \<subseteq> fst ` set bf \<union>
            {f. \<exists>i \<in> set ids. \<exists>em. fst (getEmailById P now s i) = Inr (Some em) \<and> folder em = f}"
          "set (calls sk1) \<subseteq> set (calls sk')"
          "\<forall>j. map_of (emailCache sk1) j \<noteq> None \<longrightarrow> map_of (emailCache sk') j \<noteq> None"
          "\<forall>i \<in> set ids. resolves P now s i \<longrightarrow> map_of (emailCache sk') i \<noteq> None"
        by blast
      have e: "errors res' = errors res @ ((''Email '' @ i @ '' not found'') # msgs)"
        using ih(4) by (simp add: res1_def)
      have l: "list_all2 names ((''Email '' @ i @ '' not found'') # msgs)
          (filter (\<lambda>i. \<not> resolves P now s i) (i # ids))"
        using ih(5) nr names_not_found by simp
      from ih st nr e l show ?thesis
        by (auto simp: res1_def)
    next
      case (Some em)
      then have yes: "resolves P now s i" and em: "fst (getEmailById P now s i) = Inr (Some em)"
        using r Inr by (simp_all add: resolves_def)
      define bf1 where "bf1 = addToFolder (folder em) i bf"
      from Cons.prems(2) g Inr Some have run: "lookupLoop P now ids res bf1 sk1 = (res', bf', sk')"
        by (simp add: bf1_def)
      from Cons.IH[OF _ run] st obtain msgs where
        ih: "agrees P now s sk'" "success res' = success res"
          "failed res' = failed res + length (filter (\<lambda>i. \<not> resolves P now s i) ids)"
          "errors res' = errors res @ msgs"
          "list_all2 names msgs (filter (\<lambda>i. \<not> resolves P now s i) ids)"
          "length (concat (map snd bf')) = length (concat (map snd bf1)) + length (filter (resolves P now s) ids)"
          "set (concat (map snd bf')) = set (concat (map snd bf1)) \<union> set (filter (resolves P now s) ids)"
          "fst ` set bf' \<subseteq> fst ` set bf1 \<union>
            {f. \<exists>i \<in> set ids. \<exists>em. fst (getEmailById P now s i) = Inr (Some em) \<and> folder em = f}"
          "set (calls sk1) \<subseteq> set (calls sk')"
          "\<forall>j. map_of (emailCache sk1) j \<noteq> None \<longrightarrow> map_of (emailCache sk') j \<noteq> None"
          "\<forall>i \<in> set ids. resolves P now s i \<longrightarrow> map_of (emailCache sk') i \<noteq> None"
        by blast
      have c: "map_of (emailCache sk') i \<noteq> None"
        using st ih(10) Inr Some by auto
      have k: "fst ` set bf' \<subseteq> fst ` set bf \<union>
          {f. \<exists>j \<in> set (i # ids). \<exists>em. fst (getEmailById P now s j) = Inr (Some em) \<and> folder em = f}"
        using ih(8) em unfolding bf1_def addToFolder_keys by auto
      from ih(1-7,9-11) st yes c k show ?thesis
        unfolding bf1_def addToFolder_length addToFolder_set
        by (intro conjI) (auto 0 3)
    qed
  qed
qed

lemma updateCached_other:
  "j \<noteq> i \<Longrightarrow> map_of (emailCache (updateCached i f x)) j = map_of (emailCache x) j"
  by (simp add: updateCached_def update_conv' split: option.splits)

lemma updateCached_cached:
  "map_of (emailCache x) j \<noteq> None \<Longrightarrow> map_of (emailCache (updateCached i f x)) j \<noteq> None"
  by (cases "j = i") (auto simp: updateCached_def update_conv' split: option.splits)

lemma movedTo_updateCached:
  "movedTo t x j \<Longrightarrow> movedTo t (updateCached i (\<lambda>c. c\<lparr>folder := t\<rparr>) x) j"
  by (cases "j = i") (auto simp: movedTo_def updateCached_def update_conv' split: option.splits)

lemma movedTo_updateCached_hit:
  "map_of (emailCache x) i \<noteq> None \<Longrightarrow> movedTo t (updateCached i (\<lambda>c. c\<lparr>folder := t\<rparr>) x) i"
  by (auto simp: movedTo_def updateCached_def update_conv' split: option.splits)

lemma moveLoop_props:
  "\<forall>i \<in> set ids. failure P (MessageMove i t) = None \<Longrightarrow>
   moveLoop P t ids res sk = (res', sk') \<Longrightarrow>
     success res' = success res + length ids \<and> failed res' = failed res \<and> errors res' = errors res \<and>
     set (calls sk) \<subseteq> set (calls sk') \<and>
     (\<forall>i \<in> set ids. MessageMove i t \<in> set (calls sk')) \<and>
     (\<forall>j. map_of (emailCache sk) j \<noteq> None \<longrightarrow> map_of (emailCache sk') j \<noteq> None) \<and>
     (\<forall>j. movedTo t sk j \<longrightarrow> movedTo t sk' j) \<and>
     (\<forall>i \<in> set ids. map_of (emailCache sk) i \<noteq> None \<longrightarrow> movedTo t sk' i)"
proof (induction ids arbitrary: res sk)
  case Nil
  then show ?case by simp
next
  case (Cons i ids)
  define sk1 where "sk1 = updateCached i (\<lambda>c. c\<lparr>folder := t\<rparr>) (sk\<lparr>calls := calls sk @ [MessageMove i t]\<rparr>)"
  from Cons.prems have run: "moveLoop P t ids (res\<lparr>success := success res + 1\<rparr>) sk1 = (res', sk')"
    by (simp add: issue_def sk1_def)
  have c1: "calls sk1 = calls sk @ [MessageMove i t]"
    by (simp add: sk1_def updateCached_calls)
  have k1: "map_of (emailCache sk) j \<noteq> None \<Longrightarrow> map_of (emailCache sk1) j \<noteq> None" for j
    unfolding sk1_def by (rule updateCached_cached) simp
  have m1: "movedTo t sk j \<Longrightarrow> movedTo t sk1 j" for j
    unfolding sk1_def using movedTo_updateCached[of t "sk\<lparr>calls := calls sk @ [MessageMove i t]\<rparr>" j i]
    by (simp add: movedTo_def)
  have h1: "map_of (emailCache sk) i \<noteq> None \<Longrightarrow> movedTo t sk1 i"
    unfolding sk1_def by (rule movedTo_updateCached_hit) simp
  from Cons.prems(1) have "\<forall>i \<in> set ids. failure P (MessageMove i t) = None" by simp
  from Cons.IH[OF this run] c1 k1 m1 h1 show ?case
    by (auto 0 3)
qed


lemma folderLoop_props:
  "\<forall>(f, ids) \<in> set bf. failure P (GetMailboxLock f) = None \<and>
      (\<forall>i \<in> set ids. failure P (MessageMove i t) = None) \<Longrightarrow>
   \<exists>res' sk'. folderLoop P t bf res sk = (Inr res', sk') \<and>
     success res' = success res + length (concat (map snd bf)) \<and>
     failed res' = failed res \<and> errors res' = errors res \<and>
     set (calls sk) \<subseteq> set (calls sk') \<and>
     (\<forall>i \<in> set (concat (map snd bf)). MessageMove i t \<in> set (calls sk')) \<and>
     (\<forall>j. map_of (emailCache sk) j \<noteq> None \<longrightarrow> map_of (emailCache sk') j \<noteq> None) \<and>
     (\<forall>j. movedTo t sk j \<longrightarrow> movedTo t sk' j) \<and>
     (\<forall>i \<in> set (concat (map snd bf)). map_of (emailCache sk) i \<noteq> None \<longrightarrow> movedTo t sk' i)"
proof (induction bf arbitrary: res sk)
  case Nil
  then show ?case by simp
next
  case (Cons a bf)
  obtain f ids where a: "a = (f, ids)" by (cases a)
  define sk1 where "sk1 = sk\<lparr>calls := calls sk @ [GetMailboxLock f]\<rparr>"
  obtain res2 sk2 where ml: "moveLoop P t ids res sk1 = (res2, sk2)"
    by (cases "moveLoop P t ids res sk1")
  from Cons.prems a have lock: "failure P (GetMailboxLock f) = None"
    and mv: "\<forall>i \<in> set ids. failure P (MessageMove i t) = None"
    and rest: "\<forall>(f, ids) \<in> set bf. failure P (GetMailboxLock f) = None \<and>
      (\<forall>i \<in> set ids. failure P (MessageMove i t) = None)"
    by simp_all
  note m = moveLoop_props[OF mv ml]
  define sk3 where "sk3 = release f sk2"
  have s3: "calls sk3 = calls sk2 @ [LockRelease f]" "emailCache sk3 = emailCache sk2"
    by (simp_all add: sk3_def release_def)
  have mt3: "movedTo t sk3 j = movedTo t sk2 j" for j
    by (simp add: movedTo_def s3)
  have s1: "emailCache sk1 = emailCache sk" "set (calls sk) \<subseteq> set (calls sk1)"
    by (auto simp: sk1_def)
  have mt1: "movedTo t sk1 j = movedTo t sk j" for j
    by (simp add: movedTo_def s1)
  from Cons.IH[OF rest, of res2 sk3] obtain res' sk' where
    ih: "folderLoop P t bf res2 sk3 = (Inr res', sk')"
      "success res' = success res2 + length (concat (map snd bf))"
      "failed res' = failed res2" "errors res' = errors res2"
      "set (calls sk3) \<subseteq> set (calls sk')"
      "\<forall>i \<in> set (concat (map snd bf)). MessageMove i t \<in> set (calls sk')"
      "\<forall>j. map_of (emailCache sk3) j \<noteq> None \<longrightarrow> map_of (emailCache sk') j \<noteq> None"
      "\<forall>j. movedTo t sk3 j \<longrightarrow> movedTo t sk' j"
      "\<forall>i \<in> set (concat (map snd bf)). map_of (emailCache sk3) i \<noteq> None \<longrightarrow> movedTo t sk' i"
    by blast
  have run: "folderLoop P t (a # bf) res sk = (Inr res', sk')"
    using lock ml ih(1) by (simp add: a issue_def sk1_def sk3_def)
  have "success res' = success res + length (concat (map snd (a # bf)))"
    using ih(2) m by (simp add: a)
  moreover have "failed res' = failed res" "errors res' = errors res"
    using ih(3,4) m by simp_all
  moreover have "set (calls sk) \<subseteq> set (calls sk')"
    using ih(5) m s1 s3 by auto
  moreover have "\<forall>i \<in> set (concat (map snd (a # bf))). MessageMove i t \<in> set (calls sk')"
    using ih(5,6) m s3 by (auto simp: a)
  moreover have "\<forall>j. map_of (emailCache sk) j \<noteq> None \<longrightarrow> map_of (emailCache sk') j \<noteq> None"
    using ih(7) m s1 s3 by auto
  moreover have "\<forall>j. movedTo t sk j \<longrightarrow> movedTo t sk' j"
    using ih(8) m mt1 mt3 by auto
  moreover have "\<forall>i \<in> set (concat (map snd (a # bf))). map_of (emailCache sk) i \<noteq> None \<longrightarrow> movedTo t sk' i"
  proof (intro ballI impI)
    fix i assume i: "i \<in> set (concat (map snd (a # bf)))" and c: "map_of (emailCache sk) i \<noteq> None"
    from i have "i \<in> set ids \<or> i \<in> set (concat (map snd bf))" by (auto simp: a)
    then show "movedTo t sk' i"
    proof
      assume "i \<in> set ids"
      with m c s1 have "movedTo t sk2 i" by auto
      with ih(8) mt3 show ?thesis by auto
    next
      assume "i \<in> set (concat (map snd bf))"
      moreover have "map_of (emailCache sk3) i \<noteq> None" using c m s1 s3 by auto
      ultimately show ?thesis using ih(9) by auto
    qed
  qed
  ultimately show ?case using run by blast
qed


lemma movable_resolves: "movable P now s t i \<Longrightarrow> resolves P now s i"
  by (auto simp: movable_def resolves_def split: sum.splits option.splits)

text \<open>
  Claim C4. Let the service be connected, let every identifier of \<open>xs\<close> and \<open>ys\<close> be
  movable to the target (it resolves, and the provider throws neither on the lock of its
  folder nor on its move), and let \<open>b\<close> not resolve. Then \<open>bulkMoveEmails\<close> of
  \<open>xs @ b # ys\<close> returns a result with \<open>success\<close> the number of the other identifiers,
  \<open>failed\<close> 1 and a single error message, which names \<open>b\<close>; and for every other
  identifier the move was issued to the provider and the cached message has the target as
  its folder.
\<close>

theorem bulkMoveEmails_one_failure:
  assumes con: "client s" "isConnected s"
    and mv: "\<forall>i \<in> set (xs @ ys). movable P now s target i"
    and nb: "\<not> resolves P now s b"
  shows "\<exists>results s' msg.
     bulkMoveEmails P now s (xs @ b # ys) target = (Inr results, s') \<and>
     success results = length xs + length ys \<and> failed results = 1 \<and>
     errors results = [msg] \<and> names msg b \<and>
     (\<forall>i \<in> set (xs @ ys). movedTo target s' i \<and> MessageMove i target \<in> set (calls s'))"
proof -
  let ?ids = "xs @ b # ys"
  let ?zero = "\<lparr>success = 0, failed = 0, errors = []\<rparr>"
  obtain res1 bf1 s1 where ll: "lookupLoop P now ?ids ?zero [] s = (res1, bf1, s1)"
    by (cases "lookupLoop P now ?ids ?zero [] s") auto
  have rs: "\<forall>i \<in> set (xs @ ys). resolves P now s i"
    using mv movable_resolves by blast
  have bad: "filter (\<lambda>i. \<not> resolves P now s i) ?ids = [b]"
    using rs nb by (simp add: filter_empty_conv)
  have good: "filter (resolves P now s) ?ids = xs @ ys"
    using rs nb by (simp add: filter_id_conv)
  from lookupLoop_props[OF con agrees_refl[OF con] ll] obtain msgs where
    l: "success res1 = 0" "failed res1 = 1" "errors res1 = msgs" "list_all2 names msgs [b]"
      "length (concat (map snd bf1)) = length xs + length ys"
      "set (concat (map snd bf1)) = set (xs @ ys)"
      "fst ` set bf1 \<subseteq>
         {f. \<exists>i \<in> set ?ids. \<exists>em. fst (getEmailById P now s i) = Inr (Some em) \<and> folder em = f}"
      "\<forall>i \<in> set ?ids. resolves P now s i \<longrightarrow> map_of (emailCache s1) i \<noteq> None"
    unfolding bad good by auto
  from l(4) obtain msg where msg: "msgs = [msg]" "names msg b"
    by (auto simp: list_all2_Cons2)
  have ok: "\<forall>(f, ids) \<in> set bf1. failure P (GetMailboxLock f) = None \<and>
      (\<forall>i \<in> set ids. failure P (MessageMove i target) = None)"
  proof (intro ballI, clarify, intro conjI ballI)
    fix f ids assume in_bf: "(f, ids) \<in> set bf1"
    then have "f \<in> fst ` set bf1" by force
    with l(7) obtain i em where i: "i \<in> set ?ids" "fst (getEmailById P now s i) = Inr (Some em)"
      "folder em = f" by blast
    from i(2) nb have "i \<noteq> b" by (auto simp: resolves_def)
    with i(1) have "i \<in> set (xs @ ys)" by auto
    with mv have "movable P now s target i" by blast
    with i(2,3) show "failure P (GetMailboxLock f) = None" by (simp add: movable_def)
  next
    fix f ids i assume in_bf: "(f, ids) \<in> set bf1" and i: "i \<in> set ids"
    then have "i \<in> set (concat (map snd bf1))" by force
    with l(6) mv have "movable P now s target i" by blast
    then show "failure P (MessageMove i target) = None"
      by (auto simp: movable_def split: sum.splits option.splits)
  qed
  from folderLoop_props[OF ok, of res1 s1] obtain results s' where
    f: "folderLoop P target bf1 res1 s1 = (Inr results, s')"
      "success results = success res1 + length (concat (map snd bf1))"
      "failed results = failed res1" "errors results = errors res1"
      "\<forall>i \<in> set (concat (map snd bf1)). MessageMove i target \<in> set (calls s')"
      "\<forall>i \<in> set (concat (map snd bf1)). map_of (emailCache s1) i \<noteq> None \<longrightarrow> movedTo target s' i"
    by blast
  have run: "bulkMoveEmails P now s ?ids target = (Inr results, s')"
    using con ll f(1) by (simp add: bulkMoveEmails_def)
  have "\<forall>i \<in> set (xs @ ys). movedTo target s' i \<and> MessageMove i target \<in> set (calls s')"
  proof
    fix i assume i: "i \<in> set (xs @ ys)"
    then have "i \<in> set ?ids" "resolves P now s i" using rs by auto
    with l(8) have "map_of (emailCache s1) i \<noteq> None" by blast
    with f(5,6) l(6) i show "movedTo target s' i \<and> MessageMove i target \<in> set (calls s')"
      by blast
  qed
  with run f(2-4) l(1-3,5) msg show ?thesis by auto
qed


theorem bulkMoveEmails_one_failure_witness:
  "fst (bulkMoveEmails threeMessages 0 connectedService [''11'', ''99'', ''13''] ''Archive'')
     = Inr \<lparr>success = 2, failed = 1, errors = [''Email 99 not found'']\<rparr> \<and>
   (\<exists>results s' msg.
     bulkMoveEmails threeMessages 0 connectedService [''11'', ''99'', ''13''] ''Archive'' = (Inr results, s') \<and>
     success results = 2 \<and> failed results = 1 \<and> errors results = [msg] \<and> names msg ''99'' \<and>
     movedTo ''Archive'' s' ''11'' \<and> movedTo ''Archive'' s' ''13'' \<and>
     MessageMove ''11'' ''Archive'' \<in> set (calls s') \<and> MessageMove ''13'' ''Archive'' \<in> set (calls s'))"
proof -
  have c: "client connectedService" "isConnected connectedService"
    by (simp_all add: connectedService_def)
  have m11: "movable threeMessages 0 connectedService ''Archive'' ''11''" by code_simp
  have m13: "movable threeMessages 0 connectedService ''Archive'' ''13''" by code_simp
  have mv: "\<forall>i \<in> set ([''11''] @ [''13'']). movable threeMessages 0 connectedService ''Archive'' i"
    using m11 m13 by simp
  have nb: "\<not> resolves threeMessages 0 connectedService ''99''" by code_simp
  have e: "fst (bulkMoveEmails threeMessages 0 connectedService [''11'', ''99'', ''13''] ''Archive'')
     = Inr \<lparr>success = 2, failed = 1, errors = [''Email 99 not found'']\<rparr>"
    by code_simp
  from bulkMoveEmails_one_failure[OF c mv nb] e show ?thesis
    by (auto simp del: One_nat_def)
qed

section \<open>The bulk delete tool\<close>


lemma bulkDeleteEmails_undefined: "''bulkDeleteEmails'' \<notin> set SimpleIMAPService_methods"
  by (simp add: SimpleIMAPService_methods_def)

text \<open>
  Claim C9. Whatever the arguments and the state of the service, and whatever a method
  \<open>bulkDeleteEmails\<close> would do, the tool \<open>bulk_delete_emails\<close> replies with the error
  payload of the missing method, marked \<open>isError\<close>, and leaves the service as it was:
  no provider call is issued and no message leaves the cache.
\<close>

theorem bulk_delete_emails_fails:
  "handleToolCall bulkDelete P now s ''bulk_delete_emails'' args =
     (\<lparr>response_text = ''Error: imapService.bulkDeleteEmails is not a function'', isError = True\<rparr>, s)"
  by (simp add: handleToolCall_def callMethod_def bulkDeleteEmails_undefined errorResponse_def)

section \<open>Properties of the volume trends\<close>



lemma daysBefore_fixed: "daysBefore (fixedZone c) now i = now - int i * msPerDay"
  by (simp add: daysBefore_def fixedZone_def)

lemma isoDay_daysBefore_fixed: "isoDay (daysBefore (fixedZone c) now i) = isoDay now - int i"
proof -
  have "(now - int i * msPerDay) div msPerDay = now div msPerDay - int i"
    by (simp add: msPerDay_def div_diff)
  then show ?thesis by (simp add: daysBefore_fixed isoDay_def)
qed

lemma update_fresh: "k \<notin> fst ` set m \<Longrightarrow> AList.update k v m = m @ [(k, v)]"
  by (induction m) auto

lemma initTrends_fixed:
  "initTrends (fixedZone c) now days = map (\<lambda>i. (isoDay now - int i, (0, 0))) [0..<days]"
proof (induction days)
  case 0
  show ?case by (simp add: initTrends_def)
next
  case (Suc n)
  have fresh: "isoDay now - int n \<notin> fst ` set (map (\<lambda>i. (isoDay now - int i, (0::nat, 0::nat))) [0..<n])"
    by auto
  have "initTrends (fixedZone c) now (Suc n)
      = AList.update (isoDay now - int n) (0, 0) (initTrends (fixedZone c) now n)"
    by (simp add: initTrends_def isoDay_daysBefore_fixed)
  then show ?case
    unfolding Suc.IH using update_fresh[OF fresh] by simp
qed

lemma countEmail_Cons:
  "countEmail e ((a, r, n) # m) =
     (if isoDay (date e) = a then (a, r + 1, n) # m else (a, r, n) # countEmail e m)"
  by (simp add: countEmail_def split: option.splits)

lemma countEmail_absent:
  assumes "isoDay (date e) \<notin> fst ` set m"
  shows "countEmail e m = m"
proof -
  from assms have "map_of m (isoDay (date e)) = None"
    by (simp only: map_of_eq_None_iff not_False_eq_True)
  then show ?thesis by (simp add: countEmail_def)
qed

lemma bump_absent:
  fixes m :: "(int \<times> nat \<times> nat) list"
  shows "k \<notin> fst ` set m \<Longrightarrow> map (\<lambda>(d, r, n). (d, r + (if k = d then 1 else 0), n)) m = m"
  by (induction m) auto

lemma countEmail_map:
  "distinct (map fst m) \<Longrightarrow>
     countEmail e m = map (\<lambda>(d, r, n). (d, r + (if isoDay (date e) = d then 1 else 0), n)) m"
proof (induction m)
  case Nil
  show ?case by (simp add: countEmail_def)
next
  case (Cons p m)
  obtain a r n where p: "p = (a, r, n)" by (cases p)
  show ?case
  proof (cases "isoDay (date e) = a")
    case True
    with Cons.prems p have "isoDay (date e) \<notin> fst ` set m" by auto
    from bump_absent[OF this] True show ?thesis
      unfolding p countEmail_Cons by simp
  next
    case False
    from Cons.prems have "distinct (map fst m)" by simp
    from Cons.IH[OF this] False show ?thesis
      unfolding p countEmail_Cons by simp
  qed
qed

lemma fold_countEmail:
  "distinct (map fst m) \<Longrightarrow>
     fold countEmail es m = map (\<lambda>(d, r, n). (d, r + length (filter (\<lambda>e. isoDay (date e) = d) es), n)) m"
proof (induction es arbitrary: m)
  case Nil
  have "map (\<lambda>(d, r, n). (d, r + length (filter (\<lambda>e. isoDay (date e) = d) []), n)) m = m"
    by (induction m) auto
  then show ?case by simp
next
  case (Cons e es)
  let ?m1 = "map (\<lambda>(d, r, n). (d, r + (if isoDay (date e) = d then 1 else 0), n)) m"
  have k1: "map fst ?m1 = map fst m"
    by (induction m) auto
  have d1: "distinct (map fst ?m1)"
    using Cons.prems by (simp only: k1)
  have "fold countEmail (e # es) m = fold countEmail es ?m1"
    by (simp only: fold_simps countEmail_map[OF Cons.prems])
  also have "\<dots> = map (\<lambda>(d, r, n). (d, r + length (filter (\<lambda>e. isoDay (date e) = d) es), n)) ?m1"
    by (rule Cons.IH[OF d1])
  also have "\<dots> = map (\<lambda>(d, r, n). (d, r + length (filter (\<lambda>e. isoDay (date e) = d) (e # es)), n)) m"
    by (induction m) auto
  finally show ?case .
qed

lemma sort_key_rev_sorted:
  assumes "distinct (map f xs)" "sorted (map f (rev xs))"
  shows "sort_key f xs = rev xs"
proof (rule map_sorted_distinct_set_unique[of f])
  from assms(1) have inj: "inj_on f (set xs)" by (simp add: distinct_map)
  then show "inj_on f (set (sort_key f xs) \<union> set (rev xs))" by simp
  show "sorted (map f (sort_key f xs))" by simp
  from assms(1) inj show "distinct (map f (sort_key f xs))" by (simp add: distinct_map)
  show "sorted (map f (rev xs))" by fact
  from assms(1) show "distinct (map f (rev xs))" by (simp add: rev_map[symmetric])
  show "set (sort_key f xs) = set (rev xs)" by simp
qed

lemma rev_days: "rev (map (\<lambda>i. t - int i) [0..<n]) = [t - int n + 1..t]"
proof (induction n)
  case 0
  show ?case by simp
next
  case (Suc n)
  have "[t - int (Suc n) + 1..t] = (t - int n) # [t - int n + 1..t]"
    using upto_rec1[of "t - int n" t] by simp
  with Suc show ?case by simp
qed

text \<open>
  In a time zone with a fixed offset from UTC, \<open>getVolumeTrends\<close> for \<open>days\<close> days returns one
  entry for each of the \<open>days\<close> UTC days that end with the day of \<open>now\<close>, the oldest first;
  the entry of a day counts the messages of the snapshot dated on that day as received,
  and none as sent.
\<close>

lemma getVolumeTrends_fixedZone:
  "getVolumeTrends s (fixedZone c) now days =
     map (\<lambda>d. \<lparr>trend_date = d,
                received = length (filter (\<lambda>e. isoDay (date e) = d) (emails s)),
                sent = 0\<rparr>)
       [isoDay now - int days + 1..isoDay now]"
proof -
  let ?mk = "\<lambda>d. \<lparr>trend_date = d, received = length (filter (\<lambda>e. isoDay (date e) = d) (emails s)), sent = 0\<rparr>"
  let ?ds = "map (\<lambda>i. isoDay now - int i) [0..<days]"
  have dist: "distinct (map fst (initTrends (fixedZone c) now days))"
    by (simp add: initTrends_fixed comp_def distinct_map inj_on_def)
  have "map (\<lambda>(d, r, n). \<lparr>trend_date = d, received = r, sent = n\<rparr>)
          (fold countEmail (emails s) (initTrends (fixedZone c) now days)) = map ?mk ?ds"
    unfolding fold_countEmail[OF dist] by (simp add: initTrends_fixed comp_def)
  moreover have "sort_key trend_date (map ?mk ?ds) = rev (map ?mk ?ds)"
  proof (rule sort_key_rev_sorted)
    show "distinct (map trend_date (map ?mk ?ds))"
      by (simp add: comp_def distinct_map inj_on_def)
    have "map trend_date (rev (map ?mk ?ds)) = rev ?ds"
      by (simp add: rev_map comp_def)
    then show "sorted (map trend_date (rev (map ?mk ?ds)))"
      by (simp only: rev_days sorted_upto)
  qed
  moreover have "rev (map ?mk ?ds) = map ?mk (rev ?ds)"
    by (simp add: rev_map)
  ultimately show ?thesis
    by (simp only: getVolumeTrends_def calculateVolumeTrends_def rev_days)
qed

text \<open>
  Claim C8 in central Europe at 01:30 local time on 2024-04-02, two days after the
  clocks went forward, for 3 days and an empty snapshot: the call returns two entries,
  for the UTC days 2024-03-31 and 2024-04-01, where the claim has three. Stepping back
  one day and stepping back two days lead to the same UTC date, 2024-03-31, so the third
  day of the window, 2024-03-30, has no entry. In a zone with a fixed offset the same
  call returns the three days.
\<close>

theorem getVolumeTrends_summer_time:
  "getVolumeTrends emptyAnalytics centralEurope2024 (19814 * 86400000 + 23 * 3600000 + 1800000) 3
     = [\<lparr>trend_date = 19813, received = 0, sent = 0\<rparr>, \<lparr>trend_date = 19814, received = 0, sent = 0\<rparr>] \<and>
   isoDay (daysBefore centralEurope2024 (19814 * 86400000 + 23 * 3600000 + 1800000) 1) = 19813 \<and>
   isoDay (daysBefore centralEurope2024 (19814 * 86400000 + 23 * 3600000 + 1800000) 2) = 19813 \<and>
   map trend_date (getVolumeTrends emptyAnalytics (fixedZone 3600000)
       (19814 * 86400000 + 23 * 3600000 + 1800000) 3) = [19812, 19813, 19814]"
  by code_simp

section \<open>Search criteria\<close>

lemma quietly_refl: "quietly s s"
  by (simp add: quietly_def)

lemma quietly_trans: "quietly s s' \<Longrightarrow> quietly s' s'' \<Longrightarrow> quietly s s''"
  by (auto simp: quietly_def)

lemma quietly_call: "\<not> isSearch c \<Longrightarrow> calls s' = calls s @ [c] \<Longrightarrow> quietly s s'"
  by (simp add: quietly_def)

lemma quietly_same: "calls s' = calls s \<Longrightarrow> quietly s s'"
  by (simp add: quietly_def)

lemma statusLoop_quiet: "statusLoop P fs res s = (r, s') \<Longrightarrow> quietly s s'"
proof (induction fs arbitrary: res s)
  case Nil
  then show ?case by (auto simp: quietly_refl)
next
  case (Cons f fs)
  show ?case
  proof (cases rule: issue_cases[of P "Status (rf_path f)" s])
    case ok
    from Cons.prems obtain res' fc where
      run: "statusLoop P fs res' (s\<lparr>calls := calls s @ [Status (rf_path f)], folderCache := fc\<rparr>) = (r, s')"
      by (simp add: ok)
    have "quietly s (s\<lparr>calls := calls s @ [Status (rf_path f)], folderCache := fc\<rparr>)"
      by (rule quietly_call[of "Status (rf_path f)"]) simp_all
    then show ?thesis using Cons.IH[OF run] by (rule quietly_trans)
  next
    case (thrown m x)
    with Cons.prems have "calls s' = calls s @ [Status (rf_path f)]" by auto
    then show ?thesis by (simp add: quietly_def)
  qed
qed

lemma getFolders_quiet:
  assumes "client s" "isConnected s" "getFolders P s = (r, s')"
  shows "quietly s s'"
proof (cases rule: issue_cases[of P ListFolders s])
  case ok
  with assms have "statusLoop P (remoteFolders P) [] (s\<lparr>calls := calls s @ [ListFolders]\<rparr>) = (r, s')"
    by (simp add: getFolders_def ensureConnection_def)
  from statusLoop_quiet[OF this]
  have "quietly (s\<lparr>calls := calls s @ [ListFolders]\<rparr>) s'" .
  moreover have "quietly s (s\<lparr>calls := calls s @ [ListFolders]\<rparr>)"
    by (simp add: quietly_def)
  ultimately show ?thesis by (rule quietly_trans[rotated])
next
  case (thrown m x)
  with assms have "calls s' = calls s @ [ListFolders]"
    by (auto simp: getFolders_def ensureConnection_def)
  then show ?thesis by (simp add: quietly_def)
qed

lemma searchFolders_quiet: "searchFolders P now i fs s = (r, s') \<Longrightarrow> quietly s s'"
proof (induction fs arbitrary: s)
  case Nil
  then show ?case by (auto simp: quietly_refl)
next
  case (Cons f fs)
  let ?p = "folder_path f"
  show ?case
  proof (cases rule: issue_cases[of P "GetMailboxLock ?p" s])
    case (thrown m x)
    with Cons.prems have "calls s' = calls s @ [GetMailboxLock ?p]" by auto
    then show ?thesis by (simp add: quietly_def)
  next
    case ok
    define s1 where "s1 = s\<lparr>calls := calls s @ [GetMailboxLock ?p]\<rparr>"
    show ?thesis
    proof (cases rule: issue_cases[of P "FetchUid i" s1])
      case (thrown m x)
      with Cons.prems ok have "calls s' = calls s @ [GetMailboxLock ?p, FetchUid i, LockRelease ?p]"
        by (auto simp: s1_def release_def)
      then show ?thesis by (simp add: quietly_def)
    next
      case ok2: ok
      define s2 where "s2 = s1\<lparr>calls := calls s1 @ [FetchUid i]\<rparr>"
      show ?thesis
      proof (cases "fetchLoopById now ?p (fetchByUid P ?p i)")
        case None
        with Cons.prems ok ok2 have "searchFolders P now i fs (release ?p s2) = (r, s')"
          by (simp add: s1_def s2_def)
        from Cons.IH[OF this] have "quietly (release ?p s2) s'" .
        moreover have "quietly s (release ?p s2)"
          by (simp add: quietly_def release_def s2_def s1_def)
        ultimately show ?thesis by (rule quietly_trans[rotated])
      next
        case (Some out)
        with Cons.prems ok ok2
        have "calls s' = calls s @ [GetMailboxLock ?p, FetchUid i, LockRelease ?p]"
          by (cases out) (auto simp: s1_def release_def)
        then show ?thesis by (simp add: quietly_def)
      qed
    qed
  qed
qed

lemma getEmailById_quiet:
  assumes "client s" "isConnected s" "getEmailById P now s i = (r, s')"
  shows "quietly s s'"
proof (cases "map_of (emailCache s) i")
  case (Some em)
  with assms show ?thesis by (auto simp: getEmailById_def quietly_refl)
next
  case None
  obtain rf s1 where gf: "getFolders P s = (rf, s1)" by (cases "getFolders P s")
  note q1 = getFolders_quiet[OF assms(1,2) gf]
  show ?thesis
  proof (cases rf)
    case (Inl e)
    with assms None gf q1 show ?thesis by (auto simp: getEmailById_def)
  next
    case (Inr folders)
    with assms None gf have "searchFolders P now i folders s1 = (r, s')"
      by (simp add: getEmailById_def)
    from q1 searchFolders_quiet[OF this] show ?thesis by (rule quietly_trans)
  qed
qed

lemma searchLoop_quiet:
  "client s \<Longrightarrow> isConnected s \<Longrightarrow> searchLoop P now uids res s = (r, s') \<Longrightarrow> quietly s s'"
proof (induction uids arbitrary: res s)
  case Nil
  then show ?case by (auto simp: quietly_refl)
next
  case (Cons uid uids)
  obtain r1 s1 where g: "getEmailById P now s uid = (r1, s1)" by (cases "getEmailById P now s uid")
  note q = getEmailById_quiet[OF Cons.prems(1,2) g]
  from getEmailById_props[OF Cons.prems(1,2) g] Cons.prems(1,2)
  have con: "client s1" "isConnected s1" by (auto simp: extends_def)
  show ?case
  proof (cases r1)
    case (Inl e)
    with Cons.prems(3) g q show ?thesis by auto
  next
    case (Inr found)
    with Cons.prems(3) g obtain res' where "searchLoop P now uids res' s1 = (r, s')"
      by (cases found) auto
    from q Cons.IH[OF con this] show ?thesis by (rule quietly_trans)
  qed
qed

text \<open>
  On a connected service that gets the lock of the folder, \<open>searchEmails\<close> hands the
  provider the criteria built from the options, right after the lock, and no other search.
\<close>

lemma searchEmails_issues:
  assumes con: "client s" "isConnected s"
    and lock: "failure P (GetMailboxLock (orElse (o_folder opts) ''INBOX'')) = None"
  shows "\<exists>rest. calls (snd (searchEmails P now s opts))
       = calls s @ [GetMailboxLock (orElse (o_folder opts) ''INBOX''), Search (buildSearchCriteria opts)] @ rest
     \<and> \<not> list_ex isSearch rest"
proof -
  let ?f = "orElse (o_folder opts) ''INBOX''"
  let ?c = "buildSearchCriteria opts"
  define s2 where "s2 = s\<lparr>calls := calls s @ [GetMailboxLock ?f]\<rparr>"
  define s3 where "s3 = s2\<lparr>calls := calls s2 @ [Search ?c]\<rparr>"
  have i1: "issue P (GetMailboxLock ?f) s = (None, s2)"
    using lock by (simp add: issue_def s2_def)
  show ?thesis
  proof (cases rule: issue_cases[of P "Search ?c" s2])
    case (thrown m x)
    with con i1 have "calls (snd (searchEmails P now s opts))
        = calls s @ [GetMailboxLock ?f, Search ?c] @ [LockRelease ?f]"
      by (simp add: searchEmails_def ensureConnection_def Let_def release_def s2_def)
    then show ?thesis by (intro exI[of _ "[LockRelease ?f]"]) simp
  next
    case ok
    let ?uids = "case searchUids P ?f ?c of None \<Rightarrow> []
        | Some uids \<Rightarrow> slice0 uids (case o_limit opts of None \<Rightarrow> 100 | Some l \<Rightarrow> if l = 0 then 100 else l)"
    obtain r s4 where sl: "searchLoop P now ?uids [] s3 = (r, s4)"
      by (cases "searchLoop P now ?uids [] s3")
    have c3: "client s3" "isConnected s3" using con by (simp_all add: s3_def s2_def)
    from searchLoop_quiet[OF c3 sl] obtain cs where
      cs: "calls s4 = calls s3 @ cs" "\<not> list_ex isSearch cs"
      by (auto simp: quietly_def)
    from con i1 ok sl have "searchEmails P now s opts = (r, release ?f s4)"
      by (simp add: searchEmails_def ensureConnection_def Let_def s3_def)
    then have "calls (snd (searchEmails P now s opts))
        = calls s @ [GetMailboxLock ?f, Search ?c] @ (cs @ [LockRelease ?f])"
      using cs(1) by (simp add: release_def s3_def s2_def)
    then show ?thesis using cs(2) by (intro exI[of _ "cs @ [LockRelease ?f]"]) simp
  qed
qed

lemma searchEmails_unstarred:
  "searchEmails P now s (opts\<lparr>o_isStarred := Some False\<rparr>)
     = searchEmails P now s (opts\<lparr>o_isStarred := None\<rparr>)"
proof -
  have eq: "buildSearchCriteria (opts\<lparr>o_isStarred := Some False\<rparr>)
     = buildSearchCriteria (opts\<lparr>o_isStarred := None\<rparr>)"
    by (simp add: buildSearchCriteria_def)
  have f: "o_folder (opts\<lparr>o_isStarred := Some False\<rparr>) = o_folder (opts\<lparr>o_isStarred := None\<rparr>)"
    and l: "o_limit (opts\<lparr>o_isStarred := Some False\<rparr>) = o_limit (opts\<lparr>o_isStarred := None\<rparr>)"
    by simp_all
  show ?thesis
    unfolding searchEmails_def eq f l by (rule refl)
qed

text \<open>
  Claim C10. On a connected service that gets the lock of the folder, \<open>searchEmails\<close>
  hands the provider one search predicate, the criteria built from its options. In these
  criteria the read filter is translated in both polarities: \<open>isRead\<close> true sets \<open>seen\<close>
  and not \<open>unseen\<close>, \<open>isRead\<close> false sets \<open>unseen\<close> and not \<open>seen\<close>. The starred filter is
  translated only when true: \<open>isStarred\<close> true sets \<open>flagged\<close>, while with \<open>isStarred\<close>
  false \<open>flagged\<close> is not set, as with \<open>isStarred\<close> left undefined; the criteria of the two
  are the same, and so is the whole search, its result and its effect on the service.
\<close>

theorem searchEmails_starred_filter:
  "(client s \<and> isConnected s \<and>
      failure P (GetMailboxLock (orElse (o_folder opts) ''INBOX'')) = None \<longrightarrow>
      (\<exists>rest. calls (snd (searchEmails P now s opts))
           = calls s @ [GetMailboxLock (orElse (o_folder opts) ''INBOX''),
                        Search (buildSearchCriteria opts)] @ rest
         \<and> \<not> list_ex isSearch rest)) \<and>
   c_seen (buildSearchCriteria (opts\<lparr>o_isRead := Some True\<rparr>)) \<and>
   \<not> c_unseen (buildSearchCriteria (opts\<lparr>o_isRead := Some True\<rparr>)) \<and>
   c_unseen (buildSearchCriteria (opts\<lparr>o_isRead := Some False\<rparr>)) \<and>
   \<not> c_seen (buildSearchCriteria (opts\<lparr>o_isRead := Some False\<rparr>)) \<and>
   \<not> c_seen (buildSearchCriteria (opts\<lparr>o_isRead := None\<rparr>)) \<and>
   \<not> c_unseen (buildSearchCriteria (opts\<lparr>o_isRead := None\<rparr>)) \<and>
   c_flagged (buildSearchCriteria (opts\<lparr>o_isStarred := Some True\<rparr>)) \<and>
   \<not> c_flagged (buildSearchCriteria (opts\<lparr>o_isStarred := Some False\<rparr>)) \<and>
   \<not> c_flagged (buildSearchCriteria (opts\<lparr>o_isStarred := None\<rparr>)) \<and>
   buildSearchCriteria (opts\<lparr>o_isStarred := Some False\<rparr>)
     = buildSearchCriteria (opts\<lparr>o_isStarred := None\<rparr>) \<and>
   searchEmails P now s (opts\<lparr>o_isStarred := Some False\<rparr>)
     = searchEmails P now s (opts\<lparr>o_isStarred := None\<rparr>)"
  using searchEmails_issues[of s P opts now] searchEmails_unstarred[of P now s opts]
  by (simp add: buildSearchCriteria_def)


theorem searchEmails_starred_filter_witness:
  "client connectedService \<and> isConnected connectedService \<and>
   failure flagAwareInbox (GetMailboxLock (orElse (o_folder (noFilter\<lparr>o_isStarred := Some False\<rparr>)) ''INBOX'')) = None \<and>
   (\<exists>rest. calls (snd (searchEmails flagAwareInbox 0 connectedService (noFilter\<lparr>o_isStarred := Some False\<rparr>)))
        = calls connectedService @ [GetMailboxLock ''INBOX'',
            Search \<lparr>c_from = None, c_to = None, c_subject = None, c_since = None, c_before = None,
                    c_seen = False, c_unseen = False, c_flagged = False\<rparr>] @ rest
      \<and> \<not> list_ex isSearch rest) \<and>
   map_sum id (map msg_id)
     (fst (searchEmails flagAwareInbox 0 connectedService (noFilter\<lparr>o_isStarred := Some False\<rparr>)))
     = Inr [''11'', ''12'', ''13''] \<and>
   map_sum id (map msg_id)
     (fst (searchEmails flagAwareInbox 0 connectedService (noFilter\<lparr>o_isStarred := Some True\<rparr>)))
     = Inr [''11'']"
proof -
  have c: "client connectedService \<and> isConnected connectedService"
    by (simp add: connectedService_def)
  have f: "orElse (o_folder (noFilter\<lparr>o_isStarred := Some False\<rparr>)) ''INBOX'' = ''INBOX''"
    by (simp add: noFilter_def orElse_def)
  have l: "failure flagAwareInbox (GetMailboxLock ''INBOX'') = None"
    by (simp add: flagAwareInbox_def threeMessages_def inboxWith_def healthyProvider_def)
  have b: "buildSearchCriteria (noFilter\<lparr>o_isStarred := Some False\<rparr>)
      = \<lparr>c_from = None, c_to = None, c_subject = None, c_since = None, c_before = None,
         c_seen = False, c_unseen = False, c_flagged = False\<rparr>"
    by (simp add: buildSearchCriteria_def noFilter_def whenSet_def)
  have e1: "map_sum id (map msg_id)
     (fst (searchEmails flagAwareInbox 0 connectedService (noFilter\<lparr>o_isStarred := Some False\<rparr>)))
     = Inr [''11'', ''12'', ''13'']"
    by code_simp
  have e2: "map_sum id (map msg_id)
     (fst (searchEmails flagAwareInbox 0 connectedService (noFilter\<lparr>o_isStarred := Some True\<rparr>)))
     = Inr [''11'']"
    by code_simp
  from searchEmails_starred_filter[of connectedService flagAwareInbox
      "noFilter\<lparr>o_isStarred := Some False\<rparr>" 0] c l
  have "\<exists>rest. calls (snd (searchEmails flagAwareInbox 0 connectedService (noFilter\<lparr>o_isStarred := Some False\<rparr>)))
        = calls connectedService @ [GetMailboxLock ''INBOX'',
            Search \<lparr>c_from = None, c_to = None, c_subject = None, c_since = None, c_before = None,
                    c_seen = False, c_unseen = False, c_flagged = False\<rparr>] @ rest
      \<and> \<not> list_ex isSearch rest"
    unfolding f b by blast
  with c l e1 e2 show ?thesis unfolding f by blast
qed

end
